theory Spec2Isabelle
  imports Complex_Main "HOL-Library.Word"
begin

section \<open>The program \<^verbatim>\<open>prime.c\<close>\<close>

text \<open>
  \<^verbatim>\<open>primer\<close> fills a stack array \<^verbatim>\<open>uint32_t primes[PRIMECOUNT]\<close> by trial division and
  returns the time it took; \<^verbatim>\<open>main\<close> calls it on every press of a button and keeps a
  running average. All integer variables of \<^verbatim>\<open>primer\<close> (\<^verbatim>\<open>searchto\<close>, \<^verbatim>\<open>candidate\<close>,
  \<^verbatim>\<open>remainder\<close>, \<^verbatim>\<open>count\<close>, \<^verbatim>\<open>index\<close>) are \<^verbatim>\<open>uint32_t\<close>, the timer is \<^verbatim>\<open>uint64_t\<close>,
  \<^verbatim>\<open>passcount\<close> is an \<^verbatim>\<open>int\<close> and the times are \<^verbatim>\<open>float\<close>.
\<close>

type_synonym u32 = "32 word"
type_synonym u64 = "64 word"

text \<open>
  What C leaves undefined and the program could meet: a division by zero
  (\<^verbatim>\<open>candidate % primes[count]\<close>, \<^verbatim>\<open>total_runs / passcount\<close>), \<^verbatim>\<open>passcount++\<close> at
  \<^verbatim>\<open>INT_MAX\<close>, and \<^verbatim>\<open>total_runs += this_run\<close> before \<^verbatim>\<open>total_runs\<close> has a value.
\<close>

datatype error = DivByZero | SignedOverflow | UninitialisedRead

subsection \<open>\<^verbatim>\<open>trunc(sqrt(candidate))\<close>\<close>

text \<open>
  \<^verbatim>\<open>sqrt\<close> and \<^verbatim>\<open>trunc\<close> are the C library's functions on \<^verbatim>\<open>double\<close>. The argument is a
  \<^verbatim>\<open>uint32_t\<close>, which converts to \<^verbatim>\<open>double\<close> exactly (a double has 53 significant bits).
  The library's \<^verbatim>\<open>sqrt\<close> is taken to be the IEEE 754 square root: the double nearest to the
  real square root. A non-negative double is written here as a pair \<open>(m, s)\<close> that stands
  for \<open>m / 2 ^ s\<close>; for an argument \<open>n > 0\<close> the scale \<open>s\<close> is the one that gives the
  result its 53 significant bits. \<open>floor_sqrt\<close> is the integer square root, computed two
  bits at a time.
\<close>

definition sqrt_refine :: "nat \<Rightarrow> nat \<Rightarrow> nat" where
  "sqrt_refine n r = (if (r + 1) * (r + 1) \<le> n then r + 1 else r)"

function floor_sqrt :: "nat \<Rightarrow> nat" where
  "floor_sqrt n = (if n = 0 then 0 else sqrt_refine n (2 * floor_sqrt (n div 4)))"
  by pat_completeness auto
termination
  by (relation "measure id") auto

declare floor_sqrt.simps [simp del]

function bit_length :: "nat \<Rightarrow> nat" where
  "bit_length n = (if n = 0 then 0 else Suc (bit_length (n div 2)))"
  by pat_completeness auto
termination
  by (relation "measure id") auto

declare bit_length.simps [simp del]

text \<open>The integer nearest to the square root of \<open>N\<close> (a tie cannot happen).\<close>

definition nearest_sqrt :: "nat \<Rightarrow> nat" where
  "nearest_sqrt N = (if floor_sqrt N < N - floor_sqrt N * floor_sqrt N
                     then floor_sqrt N + 1 else floor_sqrt N)"

definition sqrt_scale :: "nat \<Rightarrow> nat" where
  "sqrt_scale n = 52 - (bit_length n - 1) div 2"

definition double_sqrt :: "nat \<Rightarrow> nat \<times> nat" where
  "double_sqrt n = (nearest_sqrt (n * 4 ^ sqrt_scale n), sqrt_scale n)"

definition double_trunc :: "nat \<times> nat \<Rightarrow> nat" where
  "double_trunc d = fst d div 2 ^ snd d"

text \<open>\<^verbatim>\<open>searchto = trunc(sqrt(candidate));\<close>\<close>

definition search_limit :: "u32 \<Rightarrow> u32" where
  "search_limit candidate = of_nat (double_trunc (double_sqrt (unat candidate)))"

subsection \<open>The divisor scan\<close>

text \<open>
  \<^verbatim>\<open>for(count = 1; (primes[count] <= searchto); count++) {
      remainder = candidate % primes[count];
      if(remainder == 0) { isprime = false; break; }
  }\<close>
  The array is the memory from the address of \<^verbatim>\<open>primes\<close> on, one \<^verbatim>\<open>uint32_t\<close> per slot;
  C checks no bound, so the slots go on past \<^verbatim>\<open>PRIMECOUNT\<close>. The scan returns
  \<^verbatim>\<open>isprime\<close> and the last value of \<^verbatim>\<open>count\<close>, which is the highest slot it has read.
  Nothing bounds the scan from above, so it is a partial function: \<open>None\<close> is a scan
  that never ends.
\<close>

partial_function (option) divisor_scan ::
  "(u32 \<Rightarrow> u32) \<Rightarrow> u32 \<Rightarrow> u32 \<Rightarrow> u32 \<Rightarrow> (error + bool \<times> u32) option" where
  "divisor_scan primes searchto candidate count =
     (if primes count \<le> searchto then
        (if primes count = 0 then Some (Inl DivByZero)
         else if candidate mod primes count = 0 then Some (Inr (False, count))
         else divisor_scan primes searchto candidate (count + 1))
      else Some (Inr (True, count)))"

subsection \<open>The generation loop\<close>

record primer_state =
  primes :: "u32 \<Rightarrow> u32"
  index :: u32
  candidate :: u32

text \<open>
  \<^verbatim>\<open>candidate += 2;
  searchto = trunc(sqrt(candidate));
  isprime = true;
  for (...) ...
  if(isprime) { index++; primes[index] = candidate; }\<close>
\<close>

definition store_prime :: "primer_state \<Rightarrow> u32 \<Rightarrow> bool \<Rightarrow> primer_state" where
  "store_prime s c isprime =
     (if isprime
      then \<lparr>primes = (primes s)(index s + 1 := c), index = index s + 1, candidate = c\<rparr>
      else \<lparr>primes = primes s, index = index s, candidate = c\<rparr>)"

definition loop_body :: "primer_state \<Rightarrow> (error + primer_state) option" where
  "loop_body s =
     (case divisor_scan (primes s) (search_limit (candidate s + 2)) (candidate s + 2) 1 of
        None \<Rightarrow> None
      | Some (Inl e) \<Rightarrow> Some (Inl e)
      | Some (Inr (isprime, count)) \<Rightarrow> Some (Inr (store_prime s (candidate s + 2) isprime)))"

text \<open>\<^verbatim>\<open>while (index < PRIMECOUNT) { ... }\<close>, with \<^verbatim>\<open>PRIMECOUNT\<close> as a parameter (the
  program defines it as 60000).\<close>

partial_function (option) primer_loop ::
  "u32 \<Rightarrow> primer_state \<Rightarrow> (error + primer_state) option" where
  "primer_loop primecount s =
     (if index s < primecount then
        (case loop_body s of
           None \<Rightarrow> None
         | Some (Inl e) \<Rightarrow> Some (Inl e)
         | Some (Inr s') \<Rightarrow> primer_loop primecount s')
      else Some (Inr s))"

text \<open>
  \<^verbatim>\<open>primes[0] = 2; primes[1] = 3; primes[2] = 5; primes[3] = 7;
  index = 3;
  candidate = primes[index];\<close>
  The array is a local variable and is not initialised: \<open>stack\<close> is what the memory
  holds when \<^verbatim>\<open>primer\<close> is entered, left there by whatever ran before.
\<close>

definition seed :: "(u32 \<Rightarrow> u32) \<Rightarrow> primer_state" where
  "seed stack =
     \<lparr>primes = stack(0 := 2, 1 := 3, 2 := 5, 3 := 7), index = 3,
      candidate = (stack(0 := 2, 1 := 3, 2 := 5, 3 := 7)) 3\<rparr>"

text \<open>The part of \<^verbatim>\<open>primer\<close> that computes the primes: the seeds, then the loop.\<close>

definition generate :: "u32 \<Rightarrow> (u32 \<Rightarrow> u32) \<Rightarrow> (error + primer_state) option" where
  "generate primecount stack = primer_loop primecount (seed stack)"

subsection \<open>Floating point\<close>

text \<open>
  A \<^verbatim>\<open>float\<close> or \<^verbatim>\<open>double\<close> is modelled by the real number it denotes. An operation
  computes the exact result and rounds it to the nearest number with \<open>p\<close> significant
  bits, ties to even (\<open>p = 24\<close> for \<^verbatim>\<open>float\<close>, \<open>p = 53\<close> for \<^verbatim>\<open>double\<close>): \<open>fl p\<close>, for a
  non-negative argument. The exponent range is not modelled; the times of this program
  are far from its ends. \<open>exponent x\<close> is the integer \<open>e\<close> with
  \<open>2 ^ e \<le> x < 2 ^ (e + 1)\<close> and \<open>scale x e\<close> is \<open>x * 2 ^ e\<close>.
\<close>

definition round_even :: "real \<Rightarrow> int" where
  "round_even x =
     (if x - of_int \<lfloor>x\<rfloor> < 1 / 2 then \<lfloor>x\<rfloor>
      else if 1 / 2 < x - of_int \<lfloor>x\<rfloor> then \<lfloor>x\<rfloor> + 1
      else if even \<lfloor>x\<rfloor> then \<lfloor>x\<rfloor> else \<lfloor>x\<rfloor> + 1)"

definition exponent :: "real \<Rightarrow> int" where
  "exponent x =
     (if 1 \<le> x then int (bit_length (nat \<lfloor>x\<rfloor>)) - 1
      else - int (bit_length (nat (\<lceil>1 / x\<rceil> - 1))))"

definition scale :: "real \<Rightarrow> int \<Rightarrow> real" where
  "scale x e = (if 0 \<le> e then x * 2 ^ nat e else x / 2 ^ nat (- e))"

definition fl :: "nat \<Rightarrow> real \<Rightarrow> real" where
  "fl p x =
     (if x = 0 then 0
      else scale (of_int (round_even (scale x (int p - 1 - exponent x))))
             (exponent x - (int p - 1)))"

text \<open>
  \<^verbatim>\<open>elapsed = (time_us_64() - start) / 1000000.0;\<close> The difference is a \<^verbatim>\<open>uint64_t\<close>; it is
  converted to \<^verbatim>\<open>double\<close>, divided in \<^verbatim>\<open>double\<close>, and rounded to \<^verbatim>\<open>float\<close> by the
  assignment.
\<close>

definition elapsed_seconds :: "u64 \<Rightarrow> u64 \<Rightarrow> real" where
  "elapsed_seconds start finish =
     fl 24 (fl 53 (fl 53 (real (unat (finish - start))) / 1000000))"

subsection \<open>\<^verbatim>\<open>primer\<close> and \<^verbatim>\<open>main\<close>\<close>

text \<open>The lines the program prints.\<close>

datatype report =
    FreeHeap u32
  | LastPrime u32
  | Runtime real
  | RuntimePassAverage real int real

text \<open>
  \<^verbatim>\<open>primer(firstpass)\<close>: \<open>start\<close> and \<open>finish\<close> are the two readings of \<^verbatim>\<open>time_us_64()\<close>.
  \<^verbatim>\<open>if(firstpass) { printf("Last Prime = %lu\n",candidate); }\<close>
\<close>

definition primer ::
  "u32 \<Rightarrow> bool \<Rightarrow> (u32 \<Rightarrow> u32) \<Rightarrow> u64 \<Rightarrow> u64 \<Rightarrow> (error + report list \<times> real) option" where
  "primer primecount firstpass stack start finish =
     (case generate primecount stack of
        None \<Rightarrow> None
      | Some (Inl e) \<Rightarrow> Some (Inl e)
      | Some (Inr s) \<Rightarrow>
          Some (Inr ((if firstpass then [LastPrime (candidate s)] else []),
                     elapsed_seconds start finish)))"

text \<open>The variables of \<^verbatim>\<open>main\<close>; \<^verbatim>\<open>total_runs\<close> has no value until the first pass assigns
  one.\<close>

record trial_stats =
  passcount :: int
  total_runs :: "real option"

text \<open>What one press of the button meets: the free heap, the stack that \<^verbatim>\<open>primer\<close> finds,
  and the two readings of the timer.\<close>

record trigger =
  heap_free :: u32
  stack_content :: "u32 \<Rightarrow> u32"
  time_start :: u64
  time_end :: u64

text \<open>
  The body of \<^verbatim>\<open>if(get_bootsel_button()) { ... }\<close>:
  \<^verbatim>\<open>passcount++;
  if(passcount == 1) {
      printf("FreeHeap = %d\n", getFreeHeap());
      this_run = primer(true);
      total_runs = this_run;
      printf("Runtime = %f\n", this_run);
  } else {
      this_run = primer(false);
      total_runs += this_run;
      printf("Runtime = %f, Pass = %d, Average Runtime = %f\n",
             this_run, passcount, total_runs / (passcount));
  }\<close>
\<close>

definition button_pressed ::
  "u32 \<Rightarrow> trigger \<Rightarrow> trial_stats \<Rightarrow> (error + report list \<times> trial_stats) option" where
  "button_pressed primecount tr st =
     (if passcount st = 2147483647 then Some (Inl SignedOverflow)
      else if passcount st + 1 = 1 then
        (case primer primecount True (stack_content tr) (time_start tr) (time_end tr) of
           None \<Rightarrow> None
         | Some (Inl e) \<Rightarrow> Some (Inl e)
         | Some (Inr (out, this_run)) \<Rightarrow>
             Some (Inr (FreeHeap (heap_free tr) # out @ [Runtime this_run],
                        \<lparr>passcount = passcount st + 1, total_runs = Some this_run\<rparr>)))
      else
        (case primer primecount False (stack_content tr) (time_start tr) (time_end tr) of
           None \<Rightarrow> None
         | Some (Inl e) \<Rightarrow> Some (Inl e)
         | Some (Inr (out, this_run)) \<Rightarrow>
             (case total_runs st of
                None \<Rightarrow> Some (Inl UninitialisedRead)
              | Some runs \<Rightarrow>
                  if passcount st + 1 = 0 then Some (Inl DivByZero)
                  else Some (Inr (out @ [RuntimePassAverage this_run (passcount st + 1)
                                    (fl 24 (fl 24 (runs + this_run) /
                                            fl 24 (of_int (passcount st + 1))))],
                             \<lparr>passcount = passcount st + 1,
                              total_runs = Some (fl 24 (runs + this_run))\<rparr>)))))"

text \<open>
  \<^verbatim>\<open>while(1) { if(get_bootsel_button()) { ... } sleep_ms(100); }\<close> never returns. The
  model runs its first iterations, one per event: the button is up (\<open>Idle\<close>) or down
  (\<open>Pressed\<close>). \<^verbatim>\<open>main\<close> starts it with \<^verbatim>\<open>passcount = 0\<close>.
\<close>

datatype event = Idle | Pressed trigger

fun main_loop ::
  "u32 \<Rightarrow> event list \<Rightarrow> trial_stats \<Rightarrow> (error + report list \<times> trial_stats) option" where
  "main_loop primecount [] st = Some (Inr ([], st))"
| "main_loop primecount (Idle # evs) st = main_loop primecount evs st"
| "main_loop primecount (Pressed tr # evs) st =
     (case button_pressed primecount tr st of
        None \<Rightarrow> None
      | Some (Inl e) \<Rightarrow> Some (Inl e)
      | Some (Inr (out, st')) \<Rightarrow>
          (case main_loop primecount evs st' of
             None \<Rightarrow> None
           | Some (Inl e) \<Rightarrow> Some (Inl e)
           | Some (Inr (out', st'')) \<Rightarrow> Some (Inr (out @ out', st''))))"

definition main :: "u32 \<Rightarrow> event list \<Rightarrow> (error + report list \<times> trial_stats) option" where
  "main primecount evs = main_loop primecount evs \<lparr>passcount = 0, total_runs = None\<rparr>"

section \<open>What the specification speaks of\<close>

text \<open>A prime number, by the definition: no divisor between 2 and itself.\<close>

definition is_prime :: "nat \<Rightarrow> bool" where
  "is_prime n \<longleftrightarrow> 1 < n \<and> (\<forall>d\<in>{2..<n}. \<not> d dvd n)"

text \<open>All primes up to \<open>n\<close>, in increasing order.\<close>

definition primes_upto :: "nat \<Rightarrow> nat list" where
  "primes_upto n = filter is_prime [0..<Suc n]"

text \<open>The value in slot \<open>i\<close>, and the filled part of the buffer: the slots from 0 to
  \<^verbatim>\<open>index\<close>.\<close>

definition slot :: "primer_state \<Rightarrow> nat \<Rightarrow> nat" where
  "slot s i = unat (primes s (of_nat i))"

definition filled :: "primer_state \<Rightarrow> nat list" where
  "filled s = map (slot s) [0..<Suc (unat (index s))]"

text \<open>
  ``The buffer holds exactly the first \<open>k + 1\<close> primes, no gaps, no duplicates, strictly
  increasing'': the filled slots list every prime up to the last of them, in order.
\<close>

definition holds_first_primes :: "primer_state \<Rightarrow> bool" where
  "holds_first_primes s \<longleftrightarrow> filled s = primes_upto (last (filled s))"

text \<open>The states in which a call of \<^verbatim>\<open>primer\<close> tests the condition of its \<^verbatim>\<open>while\<close> loop.\<close>

inductive loop_states :: "u32 \<Rightarrow> (u32 \<Rightarrow> u32) \<Rightarrow> primer_state \<Rightarrow> bool"
  for primecount :: u32 and stack :: "u32 \<Rightarrow> u32" where
  start: "loop_states primecount stack (seed stack)"
| iter: "loop_states primecount stack s \<Longrightarrow> index s < primecount \<Longrightarrow>
         loop_body s = Some (Inr s') \<Longrightarrow> loop_states primecount stack s'"

text \<open>The time a press measures, and the arithmetic mean of a list of times.\<close>

definition elapsed :: "trigger \<Rightarrow> real" where
  "elapsed tr = elapsed_seconds (time_start tr) (time_end tr)"


section \<open>Invariants and measures used in the proofs\<close>

text \<open>Trial division as a checker, to decide \<open>is_prime\<close> on a numeral.\<close>

function trial :: "nat \<Rightarrow> nat \<Rightarrow> bool" where
  "trial n d = (if n < d * d then True else if n mod d = 0 then False else trial n (d + 1))"
  by pat_completeness auto
termination
proof (relation "measure (\<lambda>(n, d). n + 1 - d)")
  show "wf (measure (\<lambda>(n, d). n + 1 - d))" by simp
next
  fix n d :: nat
  assume a: "\<not> n < d * d" "n mod d \<noteq> 0"
  have "d \<le> d * d" by (cases d) auto
  with a(1) have "d \<le> n" by linarith
  then show "((n, d + 1), (n, d)) \<in> measure (\<lambda>(n, d). n + 1 - d)" by simp
qed

declare trial.simps [simp del]

text \<open>A chain of numbers, each less than twice the one before.\<close>

fun chain_ok :: "nat \<Rightarrow> nat list \<Rightarrow> bool" where
  "chain_ok lo [] = True"
| "chain_ok lo (p # ps) = (lo < p \<and> p \<le> 2 * lo \<and> chain_ok p ps)"

text \<open>
  The invariant of the loop while no candidate has wrapped around: the seeds are in
  place, the filled slots are the first primes, the candidate is odd and no prime lies
  between the last stored prime and the candidate.
\<close>

definition search_inv :: "primer_state \<Rightarrow> bool" where
  "search_inv s \<longleftrightarrow>
     3 \<le> unat (index s) \<and> slot s 0 = 2 \<and> slot s 1 = 3 \<and> slot s 3 = 7 \<and>
     holds_first_primes s \<and>
     odd (unat (candidate s)) \<and>
     slot s (unat (index s)) \<le> unat (candidate s) \<and>
     (\<forall>q. slot s (unat (index s)) < q \<and> q \<le> unat (candidate s) \<longrightarrow> \<not> is_prime q)"

text \<open>
  What still holds once \<^verbatim>\<open>candidate += 2\<close> has wrapped around \<open>2 ^ 32\<close>: some filled
  slot holds a value above every possible search limit, with no zero before it.
\<close>

definition wrapped_inv :: "primer_state \<Rightarrow> bool" where
  "wrapped_inv s \<longleftrightarrow>
     odd (unat (candidate s)) \<and> slot s 1 = 3 \<and>
     (\<exists>j. 1 \<le> j \<and> j \<le> unat (index s) \<and> 65535 < slot s j \<and>
          (\<forall>i. 1 \<le> i \<and> i \<le> j \<longrightarrow> slot s i \<noteq> 0))"

definition loop_inv :: "primer_state \<Rightarrow> bool" where
  "loop_inv s \<longleftrightarrow> search_inv s \<or> wrapped_inv s"

text \<open>The loop ends: every iteration stores a prime or brings the candidate closer to
  3, which is always stored.\<close>

definition loop_measure :: "u32 \<Rightarrow> primer_state \<Rightarrow> nat" where
  "loop_measure primecount s =
     (unat primecount - unat (index s)) * 2 ^ 32 + unat (1 - candidate s)"

text \<open>Two states that agree on the index, the candidate and the filled slots.\<close>

definition same_view :: "primer_state \<Rightarrow> primer_state \<Rightarrow> bool" where
  "same_view s t \<longleftrightarrow>
     index t = index s \<and> candidate t = candidate s \<and>
     (\<forall>i. i \<le> unat (index s) \<longrightarrow> primes t (of_nat i) = primes s (of_nat i))"

text \<open>The invariant of \<^verbatim>\<open>main\<close>: after the first pass \<^verbatim>\<open>total_runs\<close> has a value.\<close>

definition stats_ok :: "trial_stats \<Rightarrow> bool" where
  "stats_ok st \<longleftrightarrow> 0 \<le> passcount st \<and> (1 \<le> passcount st \<longrightarrow> total_runs st \<noteq> None)"


section \<open>Lemmas\<close>

lemma floor_sqrt_bounds:
  "floor_sqrt n * floor_sqrt n \<le> n \<and> n < (floor_sqrt n + 1) * (floor_sqrt n + 1)"
proof (induction n rule: floor_sqrt.induct)
  case (1 n)
  show ?case
  proof (cases "n = 0")
    case True
    then show ?thesis by (simp add: floor_sqrt.simps)
  next
    case False
    define k where "k = floor_sqrt (n div 4)"
    from 1 False have IH: "k * k \<le> n div 4" "n div 4 < (k + 1) * (k + 1)"
      by (simp_all add: k_def)
    have lo: "(2 * k) * (2 * k) \<le> n"
    proof -
      have "4 * (k * k) \<le> 4 * (n div 4)" using IH(1) by simp
      also have "\<dots> \<le> n" by simp
      finally show ?thesis by (simp add: algebra_simps)
    qed
    have hi: "n < (2 * k + 2) * (2 * k + 2)"
    proof -
      have "n div 4 + 1 \<le> (k + 1) * (k + 1)" using IH(2) by simp
      then have "4 * (n div 4 + 1) \<le> 4 * ((k + 1) * (k + 1))" by simp
      moreover have "n < 4 * (n div 4 + 1)" by simp
      ultimately have "n < 4 * ((k + 1) * (k + 1))" by linarith
      then show ?thesis by (simp add: algebra_simps)
    qed
    have eq: "floor_sqrt n = sqrt_refine n (2 * k)"
      using False by (subst floor_sqrt.simps) (simp add: k_def)
    show ?thesis
    proof (cases "(2 * k + 1) * (2 * k + 1) \<le> n")
      case True
      then have "floor_sqrt n = 2 * k + 1" by (simp add: eq sqrt_refine_def)
      with True hi show ?thesis by (simp add: algebra_simps)
    next
      case F: False
      then have "floor_sqrt n = 2 * k" by (simp add: eq sqrt_refine_def)
      with F lo show ?thesis by (simp add: algebra_simps)
    qed
  qed
qed

lemma floor_sqrt_lower: "floor_sqrt n * floor_sqrt n \<le> n"
  using floor_sqrt_bounds [of n] by blast

lemma floor_sqrt_upper: "n < (floor_sqrt n + 1) * (floor_sqrt n + 1)"
  using floor_sqrt_bounds [of n] by blast

lemma square_less_mono: "(a::nat) * a < b * b \<Longrightarrow> a < b"
  by (metis mult_le_mono not_le)

lemma floor_sqrt_ge: "a * a \<le> n \<Longrightarrow> a \<le> floor_sqrt n"
proof -
  assume "a * a \<le> n"
  also have "n < (floor_sqrt n + 1) * (floor_sqrt n + 1)" by (rule floor_sqrt_upper)
  finally have "a < floor_sqrt n + 1" by (rule square_less_mono)
  then show ?thesis by simp
qed

lemma floor_sqrt_less: "n < a * a \<Longrightarrow> floor_sqrt n < a"
proof -
  assume "n < a * a"
  have "floor_sqrt n * floor_sqrt n \<le> n" by (rule floor_sqrt_lower)
  also note \<open>n < a * a\<close>
  finally show ?thesis by (rule square_less_mono)
qed

lemma floor_sqrt_unique: "k * k \<le> n \<Longrightarrow> n < (k + 1) * (k + 1) \<Longrightarrow> floor_sqrt n = k"
  using floor_sqrt_ge [of k n] floor_sqrt_less [of n "k + 1"] by simp

lemma bit_length_le: "n < 2 ^ k \<Longrightarrow> bit_length n \<le> k"
proof (induction k arbitrary: n)
  case 0
  then show ?case by (simp add: bit_length.simps)
next
  case (Suc k)
  show ?case
  proof (cases "n = 0")
    case True
    then show ?thesis by (simp add: bit_length.simps)
  next
    case False
    from Suc.prems have "n div 2 < 2 ^ k" by simp
    then have "bit_length (n div 2) \<le> k" by (rule Suc.IH)
    with False show ?thesis by (subst bit_length.simps) simp
  qed
qed

lemma sqrt_scale_ge: "n < 2 ^ 32 \<Longrightarrow> 37 \<le> sqrt_scale n"
proof -
  assume "n < 2 ^ 32"
  then have "bit_length n \<le> 32" by (rule bit_length_le)
  then have "(bit_length n - 1) div 2 \<le> 15" by simp
  then show ?thesis by (simp add: sqrt_scale_def)
qed

lemma floor_sqrt_u32: "n < 2 ^ 32 \<Longrightarrow> floor_sqrt n < 2 ^ 16"
  by (rule floor_sqrt_less) simp

lemma nearest_sqrt_scaled:
  assumes s: "floor_sqrt n + 1 \<le> 2 ^ s"
  shows "floor_sqrt n * 2 ^ s \<le> nearest_sqrt (n * 4 ^ s) \<and>
         nearest_sqrt (n * 4 ^ s) < (floor_sqrt n + 1) * 2 ^ s"
proof -
  define k where "k = floor_sqrt n"
  define N where "N = n * 4 ^ s"
  define r where "r = floor_sqrt N"
  define A where "A = (k + 1) * 2 ^ s"
  have four: "(4::nat) ^ s = 2 ^ s * 2 ^ s"
    by (metis power_mult_distrib numeral_times_numeral semiring_norm(12,13) mult_2)
  have kb: "k * k \<le> n" "n < (k + 1) * (k + 1)"
    unfolding k_def by (rule floor_sqrt_lower, rule floor_sqrt_upper)
  have "(k * 2 ^ s) * (k * 2 ^ s) = (k * k) * 4 ^ s" by (simp add: four algebra_simps)
  also have "\<dots> \<le> N" unfolding N_def using kb(1) by simp
  finally have lo: "k * 2 ^ s \<le> r" unfolding r_def by (rule floor_sqrt_ge)
  have "n + 1 \<le> (k + 1) * (k + 1)" using kb(2) by simp
  then have "(n + 1) * 4 ^ s \<le> ((k + 1) * (k + 1)) * 4 ^ s" by (rule mult_le_mono1)
  also have "\<dots> = A * A" by (simp add: A_def four algebra_simps)
  finally have NA: "N + 4 ^ s \<le> A * A" by (simp add: N_def algebra_simps)
  have s0: "0 < (4::nat) ^ s" by simp
  from NA s0 have "N < A * A" by linarith
  then have rA: "r < A" unfolding r_def by (rule floor_sqrt_less)
  have near: "nearest_sqrt N = (if r < N - r * r then r + 1 else r)"
    by (simp add: nearest_sqrt_def r_def)
  have up: "nearest_sqrt N < A"
  proof (cases "r + 1 < A")
    case True
    then show ?thesis by (simp add: near)
  next
    case False
    with rA have rA1: "A = r + 1" by simp
    have "A \<le> 2 ^ s * 2 ^ s" unfolding A_def k_def using s by (rule mult_le_mono1)
    then have A4: "A \<le> 4 ^ s" by (simp add: four)
    have "A * A = r * r + 2 * r + 1" by (simp add: rA1 algebra_simps)
    with NA A4 rA1 have "N \<le> r * r + r" by linarith
    then have "\<not> r < N - r * r" by simp
    then show ?thesis using rA by (simp add: near)
  qed
  have "r \<le> nearest_sqrt N" by (simp add: near)
  with lo up show ?thesis by (simp add: k_def N_def A_def)
qed

lemma double_trunc_sqrt: "n < 2 ^ 32 \<Longrightarrow> double_trunc (double_sqrt n) = floor_sqrt n"
proof -
  assume n: "n < 2 ^ 32"
  define s where "s = sqrt_scale n"
  have "floor_sqrt n + 1 \<le> 2 ^ 16" using floor_sqrt_u32 [OF n] by simp
  also have "(2::nat) ^ 16 \<le> 2 ^ s"
    using sqrt_scale_ge [OF n] by (intro power_increasing) (simp_all add: s_def)
  finally have "floor_sqrt n + 1 \<le> 2 ^ s" .
  from nearest_sqrt_scaled [OF this]
  have "nearest_sqrt (n * 4 ^ s) div 2 ^ s = floor_sqrt n"
    by (intro div_nat_eqI) (simp_all add: algebra_simps)
  then show ?thesis by (simp add: double_trunc_def double_sqrt_def s_def)
qed

lemma search_limit_floor_sqrt: "unat (search_limit c) = floor_sqrt (unat c)"
proof -
  have c: "unat c < 2 ^ 32" using unsigned_less [of c] by simp
  have "floor_sqrt (unat c) < 2 ^ 16" using c by (rule floor_sqrt_u32)
  then have "floor_sqrt (unat c) < 2 ^ 32" by simp
  then show ?thesis
    by (simp add: search_limit_def double_trunc_sqrt [OF c] unat_of_nat)
qed

lemma is_prime_ge2: "is_prime p \<Longrightarrow> 2 \<le> p"
  by (simp add: is_prime_def)

lemma prime_factor: "1 < n \<Longrightarrow> \<exists>p. is_prime p \<and> p dvd n"
proof (induction n rule: less_induct)
  case (less n)
  show ?case
  proof (cases "is_prime n")
    case True
    then show ?thesis by auto
  next
    case False
    with less.prems obtain d where d: "2 \<le> d" "d < n" "d dvd n"
      by (auto simp: is_prime_def)
    then obtain p where "is_prime p" "p dvd d" using less.IH [of d] by auto
    with d show ?thesis using dvd_trans by blast
  qed
qed

lemma small_prime_factor:
  assumes "1 < n" "\<not> is_prime n"
  shows "\<exists>p. is_prime p \<and> p dvd n \<and> p * p \<le> n"
proof -
  from assms obtain d where d: "2 \<le> d" "d < n" "d dvd n"
    by (auto simp: is_prime_def)
  then obtain e where e: "n = d * e" by (auto simp: dvd_def)
  with d assms have e2: "2 \<le> e" by (cases e; cases "e - 1") auto
  define m where "m = min d e"
  have m: "2 \<le> m" "m dvd n" "m * m \<le> n"
    using d e e2 by (auto simp: m_def min_def mult_le_mono)
  then obtain p where p: "is_prime p" "p dvd m" using prime_factor [of m] by auto
  have "0 < m" using m(1) by simp
  with p(2) have "p \<le> m" by (rule dvd_imp_le)
  then have "p * p \<le> m * m" by (simp add: mult_le_mono)
  then have "p * p \<le> n" using m(3) by (rule order_trans)
  moreover have "p dvd n" using p(2) m(2) by (rule dvd_trans)
  ultimately show ?thesis using p(1) by blast
qed

lemma is_prime_by_sqrt:
  assumes "1 < n" "\<And>p. is_prime p \<Longrightarrow> p \<le> floor_sqrt n \<Longrightarrow> \<not> p dvd n"
  shows "is_prime n"
proof (rule ccontr)
  assume "\<not> is_prime n"
  with assms(1) obtain p where p: "is_prime p" "p dvd n" "p * p \<le> n"
    using small_prime_factor by blast
  then have "p \<le> floor_sqrt n" by (simp add: floor_sqrt_ge)
  with assms(2) p show False by blast
qed

lemma not_prime_divisor: "d dvd n \<Longrightarrow> 1 < d \<Longrightarrow> d < n \<Longrightarrow> \<not> is_prime n"
  by (auto simp: is_prime_def)

lemma trial_no_divisor: "trial n d \<Longrightarrow> d \<le> e \<Longrightarrow> e * e \<le> n \<Longrightarrow> \<not> e dvd n"
proof (induction n d rule: trial.induct)
  case (1 n d)
  from "1.prems"(2,3) have "d * d \<le> n"
    by (meson mult_le_mono order_trans)
  with "1.prems"(1) have nz: "n mod d \<noteq> 0" and rec: "trial n (d + 1)"
    by (subst (asm) trial.simps, simp split: if_splits)+
  show ?case
  proof (cases "e = d")
    case True
    with nz show ?thesis by (simp add: dvd_eq_mod_eq_0)
  next
    case False
    with "1.prems"(2) have "d + 1 \<le> e" by simp
    with "1.IH" \<open>d * d \<le> n\<close> nz rec "1.prems"(3) show ?thesis by simp
  qed
qed

lemma trial_is_prime:
  assumes t: "trial n 2" and n: "1 < n"
  shows "is_prime n"
proof (rule is_prime_by_sqrt [OF n])
  fix p assume p: "is_prime p" "p \<le> floor_sqrt n"
  have "p * p \<le> floor_sqrt n * floor_sqrt n" using p(2) p(2) by (rule mult_le_mono)
  also have "\<dots> \<le> n" by (rule floor_sqrt_lower)
  finally show "\<not> p dvd n" using trial_no_divisor [OF t, of p] is_prime_ge2 [OF p(1)] by simp
qed

lemma chain_primes:
  "is_prime 5" "is_prime 7" "is_prime 13" "is_prime 23" "is_prime 43" "is_prime 83"
  "is_prime 163" "is_prime 317" "is_prime 631" "is_prime 1259" "is_prime 2503"
  "is_prime 5003" "is_prime 9973" "is_prime 19937" "is_prime 39869" "is_prime 65537"
  by (rule trial_is_prime, simp add: trial.simps, simp)+

lemma chain_cover:
  "chain_ok lo ps \<Longrightarrow> ps \<noteq> [] \<Longrightarrow> lo \<le> m \<Longrightarrow> m < last ps \<Longrightarrow>
   \<exists>p\<in>set ps. m < p \<and> p \<le> 2 * m"
proof (induction ps arbitrary: lo)
  case Nil
  then show ?case by simp
next
  case (Cons p ps)
  show ?case
  proof (cases "m < p")
    case True
    with Cons.prems show ?thesis by auto
  next
    case False
    with Cons.prems have "ps \<noteq> []" by auto
    with Cons.IH [of p] Cons.prems False show ?thesis by auto
  qed
qed

lemma bertrand_u16:
  assumes "3 \<le> m" "m < 65536"
  shows "\<exists>p. is_prime p \<and> m < p \<and> p \<le> 2 * m"
proof -
  define ps :: "nat list" where
    "ps = [5, 7, 13, 23, 43, 83, 163, 317, 631, 1259, 2503, 5003, 9973, 19937, 39869, 65537]"
  have ok: "chain_ok 3 ps" by (simp add: ps_def)
  have ne: "ps \<noteq> []" by (simp add: ps_def)
  have lt: "m < last ps" using assms(2) by (simp add: ps_def)
  have all: "\<forall>p\<in>set ps. is_prime p" by (simp add: ps_def chain_primes)
  from chain_cover [OF ok ne assms(1) lt] have "\<exists>p\<in>set ps. m < p \<and> p \<le> 2 * m" .
  with all show ?thesis by blast
qed

lemma word_of_nat_Suc: "(of_nat n :: u32) + 1 = of_nat (Suc n)"
  by simp

lemma scan_stop_true:
  "\<not> p n \<le> L \<Longrightarrow> divisor_scan p L c n = Some (Inr (True, n))"
  by (subst divisor_scan.simps) simp

lemma scan_stop_false:
  "p n \<le> L \<Longrightarrow> p n \<noteq> 0 \<Longrightarrow> c mod p n = 0 \<Longrightarrow> divisor_scan p L c n = Some (Inr (False, n))"
  by (subst divisor_scan.simps) simp

lemma scan_continue:
  "p n \<le> L \<Longrightarrow> p n \<noteq> 0 \<Longrightarrow> c mod p n \<noteq> 0 \<Longrightarrow>
   divisor_scan p L c n = divisor_scan p L c (n + 1)"
  by (subst divisor_scan.simps) simp

lemma word_dvd_unat: "(c mod d = 0) = (unat d dvd unat (c :: u32))"
proof -
  have "(c mod d = 0) = (unat (c mod d) = 0)" by (simp add: unat_eq_0)
  also have "\<dots> = (unat c mod unat d = 0)" by (simp add: unat_mod)
  also have "\<dots> = (unat d dvd unat c)" by (simp add: dvd_eq_mod_eq_0)
  finally show ?thesis .
qed

lemma scan_run:
  assumes "n \<le> j" "unat L < unat (p (of_nat j))"
    and "\<forall>i. n \<le> i \<and> i \<le> j \<longrightarrow> p (of_nat i) \<noteq> 0"
  shows "\<exists>b m. divisor_scan p L c (of_nat n) = Some (Inr (b, of_nat m)) \<and> n \<le> m \<and> m \<le> j \<and>
           (\<forall>i. n \<le> i \<and> i < m \<longrightarrow>
              unat (p (of_nat i)) \<le> unat L \<and> \<not> unat (p (of_nat i)) dvd unat c) \<and>
           (if b then unat L < unat (p (of_nat m))
            else unat (p (of_nat m)) \<le> unat L \<and> unat (p (of_nat m)) dvd unat c) \<and>
           (\<forall>q. (\<forall>i. n \<le> i \<and> i \<le> m \<longrightarrow> q (of_nat i) = p (of_nat i)) \<longrightarrow>
              divisor_scan q L c (of_nat n) = Some (Inr (b, of_nat m)))"
  using assms
proof (induction "j - n" arbitrary: n rule: less_induct)
  case less
  have none: "\<forall>i. n \<le> i \<and> i < n \<longrightarrow>
      unat (p (of_nat i)) \<le> unat L \<and> \<not> unat (p (of_nat i)) dvd unat c" by auto
  have nn: "n \<le> n" by simp
  show ?case
  proof (cases "p (of_nat n) \<le> L")
    case False
    then have gt: "unat L < unat (p (of_nat n))" by (simp add: word_le_nat_alt)
    have "divisor_scan p L c (of_nat n) = Some (Inr (True, of_nat n))"
      using False by (rule scan_stop_true)
    moreover have "\<forall>q. (\<forall>i. n \<le> i \<and> i \<le> n \<longrightarrow> q (of_nat i) = p (of_nat i)) \<longrightarrow>
              divisor_scan q L c (of_nat n) = Some (Inr (True, of_nat n))"
      using False by (simp add: scan_stop_true)
    moreover have "if True then unat L < unat (p (of_nat n))
            else unat (p (of_nat n)) \<le> unat L \<and> unat (p (of_nat n)) dvd unat c"
      using gt by simp
    ultimately show ?thesis
      using nn less.prems(1) none by blast
  next
    case True
    then have le: "unat (p (of_nat n)) \<le> unat L" by (simp add: word_le_nat_alt)
    from less.prems(1,3) have nz: "p (of_nat n) \<noteq> 0" by simp
    show ?thesis
    proof (cases "c mod p (of_nat n) = 0")
      case dv: True
      then have dvd: "unat (p (of_nat n)) dvd unat c" by (simp add: word_dvd_unat)
      have "divisor_scan p L c (of_nat n) = Some (Inr (False, of_nat n))"
        using True nz dv by (rule scan_stop_false)
      moreover have "\<forall>q. (\<forall>i. n \<le> i \<and> i \<le> n \<longrightarrow> q (of_nat i) = p (of_nat i)) \<longrightarrow>
              divisor_scan q L c (of_nat n) = Some (Inr (False, of_nat n))"
        using True nz dv by (simp add: scan_stop_false)
      moreover have "if False then unat L < unat (p (of_nat n))
            else unat (p (of_nat n)) \<le> unat L \<and> unat (p (of_nat n)) dvd unat c"
        using le dvd by simp
      ultimately show ?thesis
        using nn less.prems(1) none by blast
    next
      case ndv: False
      then have ndvd: "\<not> unat (p (of_nat n)) dvd unat c" by (simp add: word_dvd_unat)
      have nj: "n < j"
      proof (rule ccontr)
        assume "\<not> n < j"
        with less.prems(1) have "n = j" by simp
        with less.prems(2) le show False by simp
      qed
      have "j - Suc n < j - n" using nj by simp
      moreover have "Suc n \<le> j" using nj by simp
      moreover have "\<forall>i. Suc n \<le> i \<and> i \<le> j \<longrightarrow> p (of_nat i) \<noteq> 0" using less.prems(3) by simp
      ultimately obtain b m where
        run: "divisor_scan p L c (of_nat (Suc n)) = Some (Inr (b, of_nat m))"
        and m: "Suc n \<le> m" "m \<le> j"
        and before: "\<forall>i. Suc n \<le> i \<and> i < m \<longrightarrow>
              unat (p (of_nat i)) \<le> unat L \<and> \<not> unat (p (of_nat i)) dvd unat c"
        and at: "if b then unat L < unat (p (of_nat m))
            else unat (p (of_nat m)) \<le> unat L \<and> unat (p (of_nat m)) dvd unat c"
        and other: "\<forall>q. (\<forall>i. Suc n \<le> i \<and> i \<le> m \<longrightarrow> q (of_nat i) = p (of_nat i)) \<longrightarrow>
              divisor_scan q L c (of_nat (Suc n)) = Some (Inr (b, of_nat m))"
        using less.hyps [of "Suc n"] less.prems(2) by blast
      have suc: "(of_nat n :: u32) + 1 = of_nat (Suc n)" by simp
      have here: "divisor_scan p L c (of_nat n) = Some (Inr (b, of_nat m))"
        using scan_continue [where p = p and n = "of_nat n", OF True nz ndv] run
        by (simp only: suc)
      have before': "\<forall>i. n \<le> i \<and> i < m \<longrightarrow>
              unat (p (of_nat i)) \<le> unat L \<and> \<not> unat (p (of_nat i)) dvd unat c"
      proof (intro allI impI)
        fix i assume i: "n \<le> i \<and> i < m"
        show "unat (p (of_nat i)) \<le> unat L \<and> \<not> unat (p (of_nat i)) dvd unat c"
        proof (cases "i = n")
          case True with le ndvd show ?thesis by simp
        next
          case False with i before show ?thesis by simp
        qed
      qed
      have other': "\<forall>q. (\<forall>i. n \<le> i \<and> i \<le> m \<longrightarrow> q (of_nat i) = p (of_nat i)) \<longrightarrow>
              divisor_scan q L c (of_nat n) = Some (Inr (b, of_nat m))"
      proof (intro allI impI)
        fix q :: "u32 \<Rightarrow> u32" assume q: "\<forall>i. n \<le> i \<and> i \<le> m \<longrightarrow> q (of_nat i) = p (of_nat i)"
        with m have qn: "q (of_nat n) = p (of_nat n)" by simp
        from q have "\<forall>i. Suc n \<le> i \<and> i \<le> m \<longrightarrow> q (of_nat i) = p (of_nat i)" by simp
        with other have r: "divisor_scan q L c (of_nat (Suc n)) = Some (Inr (b, of_nat m))" by blast
        have "divisor_scan q L c (of_nat n) = divisor_scan q L c (of_nat n + 1)"
          using True nz ndv
          by (intro scan_continue [where p = q and n = "of_nat n"]) (simp_all add: qn)
        with r show "divisor_scan q L c (of_nat n) = Some (Inr (b, of_nat m))"
          by (simp only: suc)
      qed
      have nm: "n \<le> m" using m(1) by simp
      from here nm m(2) before' at other' show ?thesis by blast
    qed
  qed
qed

lemma length_filled: "length (filled s) = Suc (unat (index s))"
  by (simp add: filled_def)

lemma nth_filled: "i \<le> unat (index s) \<Longrightarrow> filled s ! i = slot s i"
  unfolding filled_def by (subst nth_map) (simp_all del: upt_Suc add: nth_upt)

lemma last_filled: "last (filled s) = slot s (unat (index s))"
  by (simp add: filled_def)

lemma slot_index: "slot s (unat (index s)) = unat (primes s (index s))"
  by (simp add: slot_def)

lemma set_primes_upto: "set (primes_upto n) = {p. is_prime p \<and> p \<le> n}"
  by (auto simp del: upt_Suc simp: primes_upto_def)

lemma sorted_primes_upto: "sorted_wrt (<) (primes_upto n)"
  unfolding primes_upto_def by (rule sorted_wrt_filter) (simp del: upt_Suc)

lemma hfp_prime:
  assumes "holds_first_primes s" "i \<le> unat (index s)"
  shows "is_prime (slot s i)"
proof -
  have "filled s ! i \<in> set (filled s)" using assms(2) by (simp add: length_filled)
  also have "set (filled s) = set (primes_upto (last (filled s)))"
    using assms(1) by (simp add: holds_first_primes_def)
  finally show ?thesis using assms(2) by (simp add: set_primes_upto nth_filled)
qed

lemma hfp_mono:
  assumes "holds_first_primes s" "i < j" "j \<le> unat (index s)"
  shows "slot s i < slot s j"
proof -
  have "sorted_wrt (<) (filled s)"
    using assms(1) sorted_primes_upto [of "last (filled s)"] by (simp add: holds_first_primes_def)
  moreover have "j < length (filled s)" using assms(3) by (simp add: length_filled)
  ultimately have "filled s ! i < filled s ! j"
    using assms(2) by (simp add: sorted_wrt_nth_less)
  then show ?thesis using assms(2,3) by (simp add: nth_filled)
qed

lemma hfp_mono_le:
  assumes "holds_first_primes s" "i \<le> j" "j \<le> unat (index s)"
  shows "slot s i \<le> slot s j"
  using hfp_mono [OF assms(1), of i j] assms(2,3) by (cases "i = j") auto

lemma hfp_complete:
  assumes "holds_first_primes s" "is_prime q" "q \<le> slot s (unat (index s))"
  shows "\<exists>i\<le>unat (index s). slot s i = q"
proof -
  have "q \<in> set (primes_upto (last (filled s)))"
    using assms(2,3) by (simp add: set_primes_upto last_filled)
  then have "q \<in> set (filled s)" using assms(1) by (simp add: holds_first_primes_def)
  then obtain i where "i < length (filled s)" "filled s ! i = q"
    by (auto simp: in_set_conv_nth)
  then show ?thesis by (intro exI [of _ i]) (simp add: length_filled nth_filled)
qed

lemma prime_odd: "is_prime q \<Longrightarrow> 2 < q \<Longrightarrow> odd q"
  by (auto simp: is_prime_def)

lemma even_not_prime: "even n \<Longrightarrow> 2 < n \<Longrightarrow> \<not> is_prime n"
  using prime_odd by blast

lemma is_prime_2: "is_prime 2"
  by (simp add: is_prime_def)

lemma unat_plus2: "unat (c :: u32) + 2 < 2 ^ 32 \<Longrightarrow> unat (c + 2) = unat c + 2"
  using unat_add_lem [of c 2] by simp

lemma unat_plus1: "(i :: u32) < C \<Longrightarrow> unat (i + 1) = unat i + 1"
proof -
  assume "i < C"
  then have "unat i < unat C" by (simp add: word_less_nat_alt)
  moreover have "unat C < 2 ^ 32" using unsigned_less [of C] by simp
  ultimately have "unat i + unat (1 :: u32) < 2 ^ LENGTH(32)" by simp
  then show ?thesis using unat_add_lem [of i 1] by simp
qed

lemma unat_of_nat32: "i < 2 ^ 32 \<Longrightarrow> unat (of_nat i :: u32) = i"
  by (simp add: unat_of_nat)

lemma index_bound: "unat (i :: u32) < 2 ^ 32"
  using unsigned_less [of i] by simp

lemma slot_store_old:
  assumes "index s < C" "i \<le> unat (index s)"
  shows "slot (store_prime s c True) i = slot s i"
proof -
  have k1: "unat (index s + 1) = unat (index s) + 1" using assms(1) by (rule unat_plus1)
  have "i < 2 ^ 32" using assms(2) index_bound [of "index s"] by simp
  then have "unat (of_nat i :: u32) = i" by (rule unat_of_nat32)
  with k1 assms(2) have "(of_nat i :: u32) \<noteq> index s + 1" by auto
  then show ?thesis by (simp add: slot_def store_prime_def)
qed

lemma slot_store_new:
  assumes "index s < C"
  shows "slot (store_prime s c True) (Suc (unat (index s))) = unat c"
proof -
  have "(of_nat (Suc (unat (index s))) :: u32) = index s + 1" by simp
  then show ?thesis by (simp add: slot_def store_prime_def del: of_nat_Suc)
qed

lemma index_store: "index s < C \<Longrightarrow> unat (index (store_prime s c True)) = Suc (unat (index s))"
  by (simp add: store_prime_def unat_plus1)

lemma filled_store:
  assumes "index s < C"
  shows "filled (store_prime s c True) = filled s @ [unat c]"
proof -
  let ?s' = "store_prime s c True"
  have "filled ?s' = map (slot ?s') [0..<Suc (unat (index s))] @ [slot ?s' (Suc (unat (index s)))]"
    by (simp add: filled_def index_store [OF assms])
  also have "map (slot ?s') [0..<Suc (unat (index s))] = map (slot s) [0..<Suc (unat (index s))]"
    by (rule map_cong) (simp_all add: slot_store_old [OF assms] del: upt_Suc)
  finally show ?thesis by (simp add: filled_def slot_store_new [OF assms] del: upt_Suc)
qed

lemma filled_keep: "filled (store_prime s c False) = filled s"
  by (simp add: filled_def slot_def store_prime_def)

lemma primes_upto_extend:
  assumes "pl < c" "is_prime c" "\<forall>q. pl < q \<and> q < c \<longrightarrow> \<not> is_prime q"
  shows "primes_upto c = primes_upto pl @ [c]"
proof -
  have "[0..<Suc c] = [0..<c] @ [c]" by simp
  also have "[0..<c] = [0..<Suc pl] @ [Suc pl..<Suc pl + (c - Suc pl)]"
    using assms(1) upt_add_eq_append [of 0 "Suc pl" "c - Suc pl"] by simp
  finally have split: "[0..<Suc c] = [0..<Suc pl] @ [Suc pl..<c] @ [c]"
    using assms(1) by simp
  have "filter is_prime [Suc pl..<c] = []"
    using assms(3) by (intro filter_False) auto
  then show ?thesis
    unfolding primes_upto_def split using assms(2) by simp
qed


lemma search_inv_last_ge7:
  assumes "search_inv s"
  shows "7 \<le> slot s (unat (index s))"
proof -
  from assms have k: "3 \<le> unat (index s)" and h: "holds_first_primes s" and s3: "slot s 3 = 7"
    by (simp_all add: search_inv_def)
  from hfp_mono_le [OF h k] s3 show ?thesis by simp
qed

lemma search_inv_limit:
  assumes inv: "search_inv s" and nowrap: "unat (candidate s) + 2 < 2 ^ 32"
  shows "\<exists>j. 1 \<le> j \<and> j \<le> unat (index s) \<and> floor_sqrt (unat (candidate s) + 2) < slot s j"
proof -
  define c where "c = unat (candidate s)"
  define pl where "pl = slot s (unat (index s))"
  define L where "L = floor_sqrt (c + 2)"
  from inv have h: "holds_first_primes s" and s0: "slot s 0 = 2" and oddc: "odd c"
    and plc: "pl \<le> c" and gap: "\<forall>q. pl < q \<and> q \<le> c \<longrightarrow> \<not> is_prime q"
    by (simp_all add: search_inv_def c_def pl_def)
  have "7 \<le> pl" unfolding pl_def using inv by (rule search_inv_last_ge7)
  with plc have c7: "7 \<le> c" by simp
  then have "3 * 3 \<le> c + 2" by simp
  then have L3: "3 \<le> L" unfolding L_def by (rule floor_sqrt_ge)
  have "c + 2 < 2 ^ 32" using nowrap by (simp add: c_def)
  then have "L < 2 ^ 16" unfolding L_def by (rule floor_sqrt_u32)
  then have L16: "L < 65536" by simp
  from bertrand_u16 [OF L3 L16] obtain q where q: "is_prime q" "L < q" "q \<le> 2 * L" by blast
  have "L * L \<le> c + 2" unfolding L_def by (rule floor_sqrt_lower)
  moreover have "3 * L \<le> L * L" using L3 by simp
  ultimately have "2 * L < c + 2" using L3 by linarith
  with q(3) have qc1: "q \<le> c + 1" by simp
  have "odd q" using q(1,2) L3 by (intro prime_odd) simp_all
  with oddc have "q \<noteq> c + 1" by auto
  with qc1 have "q \<le> c" by simp
  with gap q(1) have "q \<le> pl" by (meson not_le)
  from hfp_complete [OF h q(1)] this obtain j where j: "j \<le> unat (index s)" "slot s j = q"
    by (auto simp: pl_def)
  have "j \<noteq> 0"
  proof
    assume "j = 0"
    with j(2) s0 have "q = 2" by simp
    with q(2) L3 show False by simp
  qed
  with j q(2) show ?thesis unfolding L_def c_def by (intro exI [of _ j]) simp
qed

lemma slot_nonzero:
  assumes "holds_first_primes s" "i \<le> unat (index s)"
  shows "primes s (of_nat i) \<noteq> 0"
proof -
  have "2 \<le> slot s i" using hfp_prime [OF assms] by (rule is_prime_ge2)
  then show ?thesis by (auto simp: slot_def)
qed

lemma search_inv_scan:
  assumes inv: "search_inv s" and nowrap: "unat (candidate s) + 2 < 2 ^ 32"
  shows "\<exists>m. divisor_scan (primes s) (search_limit (candidate s + 2)) (candidate s + 2) 1 =
             Some (Inr (is_prime (unat (candidate s) + 2), of_nat m)) \<and> 1 \<le> m \<and> m \<le> unat (index s) \<and>
           (\<forall>q. (\<forall>i. 1 \<le> i \<and> i \<le> m \<longrightarrow> q (of_nat i) = primes s (of_nat i)) \<longrightarrow>
              divisor_scan q (search_limit (candidate s + 2)) (candidate s + 2) 1 =
              Some (Inr (is_prime (unat (candidate s) + 2), of_nat m)))"
proof -
  define c' where "c' = unat (candidate s) + 2"
  define L where "L = floor_sqrt c'"
  define lim where "lim = search_limit (candidate s + 2)"
  have uc: "unat (candidate s + 2) = c'" using nowrap by (simp add: c'_def unat_plus2)
  have ul: "unat lim = L" by (simp add: lim_def L_def search_limit_floor_sqrt uc)
  from inv have h: "holds_first_primes s" and s0: "slot s 0 = 2" and oddc: "odd c'"
    and plc: "slot s (unat (index s)) \<le> unat (candidate s)"
    by (simp_all add: search_inv_def c'_def)
  from search_inv_limit [OF inv nowrap] obtain j where
    j: "1 \<le> j" "j \<le> unat (index s)" "L < slot s j" by (auto simp: L_def c'_def)
  have nz: "\<forall>i. 1 \<le> i \<and> i \<le> j \<longrightarrow> primes s (of_nat i) \<noteq> 0"
    using slot_nonzero [OF h] j(2) by simp
  have "unat lim < unat (primes s (of_nat j))" using j(3) by (simp add: ul slot_def)
  from scan_run [OF j(1) this nz, of "candidate s + 2"] obtain b m where
    run: "divisor_scan (primes s) lim (candidate s + 2) (of_nat 1) = Some (Inr (b, of_nat m))"
    and m: "1 \<le> m" "m \<le> j"
    and before: "\<forall>i. 1 \<le> i \<and> i < m \<longrightarrow> slot s i \<le> L \<and> \<not> slot s i dvd c'"
    and at: "if b then L < slot s m else slot s m \<le> L \<and> slot s m dvd c'"
    and other: "\<forall>q. (\<forall>i. 1 \<le> i \<and> i \<le> m \<longrightarrow> q (of_nat i) = primes s (of_nat i)) \<longrightarrow>
              divisor_scan q lim (candidate s + 2) (of_nat 1) = Some (Inr (b, of_nat m))"
    unfolding ul uc slot_def [symmetric] by blast
  have mk: "m \<le> unat (index s)" using m(2) j(2) by simp
  have c9: "9 \<le> c'" using search_inv_last_ge7 [OF inv] plc by (simp add: c'_def)
  have LL: "L * L \<le> c'" unfolding L_def by (rule floor_sqrt_lower)
  have Lc: "L < c'"
  proof (rule ccontr)
    assume "\<not> L < c'"
    then have "c' \<le> L" by simp
    then have "c' * c' \<le> L * L" by (simp add: mult_le_mono)
    then have "c' * c' \<le> c'" using LL by (rule order_trans)
    moreover have "9 * c' \<le> c' * c'" using c9 by simp
    ultimately show False using c9 by simp
  qed
  have "b = is_prime c'"
  proof (cases b)
    case True
    with at have gt: "L < slot s m" by simp
    have "is_prime c'"
    proof (rule is_prime_by_sqrt)
      show "1 < c'" using c9 by simp
    next
      fix r assume r: "is_prime r" "r \<le> floor_sqrt c'"
      then have rL: "r \<le> L" by (simp add: L_def)
      with gt have rm: "r < slot s m" by simp
      also have "slot s m \<le> slot s (unat (index s))" using hfp_mono_le [OF h mk] by simp
      finally have "r \<le> slot s (unat (index s))" by simp
      from hfp_complete [OF h r(1) this] obtain i where i: "i \<le> unat (index s)" "slot s i = r"
        by blast
      have "i < m"
      proof (rule ccontr)
        assume "\<not> i < m"
        then have "m \<le> i" by simp
        from hfp_mono_le [OF h this i(1)] rm i(2) show False by simp
      qed
      show "\<not> r dvd c'"
      proof (cases "i = 0")
        case True
        with i(2) s0 have "r = 2" by simp
        with oddc show ?thesis by simp
      next
        case False
        with before \<open>i < m\<close> i(2) show ?thesis by auto
      qed
    qed
    with True show ?thesis by simp
  next
    case False
    with at have le: "slot s m \<le> L" and dv: "slot s m dvd c'" by simp_all
    have "1 < slot s m" using hfp_prime [OF h mk] is_prime_ge2 by fastforce
    moreover have "slot s m < c'" using le Lc by simp
    ultimately have "\<not> is_prime c'" using dv not_prime_divisor by blast
    with False show ?thesis by simp
  qed
  with run m(1) mk other show ?thesis
    unfolding lim_def c'_def by (intro exI [of _ m]) simp
qed

lemma even_unat: "even (unat (w :: u32)) = even w"
proof -
  have "even (unat w) = (unat w mod 2 = 0)" by (simp add: even_iff_mod_2_eq_zero)
  also have "\<dots> = (unat (w mod 2) = 0)" by (simp add: unat_mod)
  also have "\<dots> = (w mod 2 = 0)" by (simp add: unat_eq_0)
  also have "\<dots> = even w" by (simp add: even_iff_mod_2_eq_zero)
  finally show ?thesis .
qed

lemma candidate_store [simp]: "candidate (store_prime s c b) = c"
  by (simp add: store_prime_def)

lemma index_keep [simp]: "index (store_prime s c False) = index s"
  by (simp add: store_prime_def)

lemma slot_keep [simp]: "slot (store_prime s c False) i = slot s i"
  by (simp add: store_prime_def slot_def)

lemma slot_store_le:
  "index s < C \<Longrightarrow> i \<le> unat (index s) \<Longrightarrow> slot (store_prime s c b) i = slot s i"
  by (cases b) (simp_all add: slot_store_old)

lemma index_store_ge:
  "index s < C \<Longrightarrow> unat (index s) \<le> unat (index (store_prime s c b))"
  by (cases b) (simp_all add: index_store)

lemma search_inv_step:
  assumes inv: "search_inv s" and nowrap: "unat (candidate s) + 2 < 2 ^ 32"
    and lt: "index s < C"
  shows "search_inv (store_prime s (candidate s + 2) (is_prime (unat (candidate s) + 2)))"
proof -
  define c where "c = unat (candidate s)"
  define pl where "pl = slot s (unat (index s))"
  let ?s' = "store_prime s (candidate s + 2) (is_prime (c + 2))"
  have uc: "unat (candidate s + 2) = c + 2" using nowrap by (simp add: c_def unat_plus2)
  from inv have k3: "3 \<le> unat (index s)" and seeds: "slot s 0 = 2" "slot s 1 = 3" "slot s 3 = 7"
    and h: "holds_first_primes s" and oddc: "odd c"
    and plc: "pl \<le> c" and gap: "\<forall>q. pl < q \<and> q \<le> c \<longrightarrow> \<not> is_prime q"
    by (simp_all add: search_inv_def c_def pl_def)
  have pl7: "7 \<le> pl" unfolding pl_def using inv by (rule search_inv_last_ge7)
  have c1: "\<not> is_prime (c + 1)" using oddc pl7 plc by (intro even_not_prime) simp_all
  have fp: "filled s = primes_upto pl" using h by (simp add: holds_first_primes_def last_filled pl_def)
  have seeds': "slot ?s' 0 = 2" "slot ?s' 1 = 3" "slot ?s' 3 = 7"
    using seeds k3 by (simp_all add: slot_store_le [OF lt])
  have oddc': "odd (unat (candidate ?s'))" using oddc by (simp add: uc)
  show ?thesis
  proof (cases "is_prime (c + 2)")
    case True
    have "\<forall>q. pl < q \<and> q < c + 2 \<longrightarrow> \<not> is_prime q"
    proof (intro allI impI)
      fix q assume q: "pl < q \<and> q < c + 2"
      show "\<not> is_prime q"
      proof (cases "q = c + 1")
        case True with c1 show ?thesis by simp
      next
        case False with q gap show ?thesis by simp
      qed
    qed
    then have "primes_upto (c + 2) = primes_upto pl @ [c + 2]"
      using plc True by (intro primes_upto_extend) simp_all
    moreover have "filled ?s' = filled s @ [c + 2]"
      using True by (simp add: filled_store [OF lt] uc)
    ultimately have "holds_first_primes ?s'"
      by (simp add: holds_first_primes_def fp)
    moreover have "unat (index ?s') = Suc (unat (index s))"
      using True by (simp add: index_store [OF lt])
    moreover have "slot ?s' (Suc (unat (index s))) = c + 2"
      using True by (simp add: slot_store_new [OF lt] uc)
    ultimately show ?thesis
      using seeds' oddc' k3 by (auto simp: search_inv_def uc c_def)
  next
    case False
    have "\<forall>q. pl < q \<and> q \<le> c + 2 \<longrightarrow> \<not> is_prime q"
    proof (intro allI impI)
      fix q assume q: "pl < q \<and> q \<le> c + 2"
      show "\<not> is_prime q"
      proof (cases "q = c + 1 \<or> q = c + 2")
        case True with c1 False show ?thesis by auto
      next
        case F: False with q gap show ?thesis by simp
      qed
    qed
    moreover have "holds_first_primes ?s'"
      using False h by (simp add: holds_first_primes_def filled_keep)
    ultimately show ?thesis
      using False seeds' oddc' k3 plc by (simp add: search_inv_def uc pl_def c_def)
  qed
qed

lemma is_prime_65537: "is_prime 65537"
  by (rule chain_primes)

lemma search_inv_wrap:
  assumes inv: "search_inv s" and wrap: "\<not> unat (candidate s) + 2 < 2 ^ 32"
  shows "wrapped_inv s"
proof -
  define pl where "pl = slot s (unat (index s))"
  from inv have s0: "slot s 0 = 2" and s1: "slot s 1 = 3"
    and h: "holds_first_primes s" and oddc: "odd (unat (candidate s))"
    and gap: "\<forall>q. pl < q \<and> q \<le> unat (candidate s) \<longrightarrow> \<not> is_prime q"
    by (simp_all add: search_inv_def pl_def)
  from wrap have "65537 \<le> unat (candidate s)" by simp
  with gap is_prime_65537 have "65537 \<le> pl" by (meson not_le)
  from hfp_complete [OF h is_prime_65537] this obtain j where
    j: "j \<le> unat (index s)" "slot s j = 65537" by (auto simp: pl_def)
  have "j \<noteq> 0"
  proof
    assume "j = 0"
    with j(2) s0 show False by simp
  qed
  moreover have "\<forall>i. 1 \<le> i \<and> i \<le> j \<longrightarrow> slot s i \<noteq> 0"
  proof (intro allI impI)
    fix i assume "1 \<le> i \<and> i \<le> j"
    with j(1) have "i \<le> unat (index s)" by simp
    from hfp_prime [OF h this] show "slot s i \<noteq> 0" by (auto dest: is_prime_ge2)
  qed
  ultimately show ?thesis
    using oddc s1 j unfolding wrapped_inv_def by (intro conjI exI [of _ j]) simp_all
qed

lemma odd_plus2: "odd (unat (c :: u32)) \<Longrightarrow> odd (unat (c + 2))"
  by (simp add: even_unat)

lemma wrapped_inv_scan:
  assumes inv: "wrapped_inv s" and lt: "index s < C"
  shows "\<exists>b m. divisor_scan (primes s) (search_limit (candidate s + 2)) (candidate s + 2) 1 =
             Some (Inr (b, of_nat m)) \<and> 1 \<le> m \<and> m \<le> unat (index s) \<and>
           (\<forall>q. (\<forall>i. 1 \<le> i \<and> i \<le> m \<longrightarrow> q (of_nat i) = primes s (of_nat i)) \<longrightarrow>
              divisor_scan q (search_limit (candidate s + 2)) (candidate s + 2) 1 =
              Some (Inr (b, of_nat m))) \<and>
           wrapped_inv (store_prime s (candidate s + 2) b)"
proof -
  define lim where "lim = search_limit (candidate s + 2)"
  from inv obtain j where oddc: "odd (unat (candidate s))" and s1: "slot s 1 = 3"
    and j: "1 \<le> j" "j \<le> unat (index s)" "65535 < slot s j"
    and nz: "\<forall>i. 1 \<le> i \<and> i \<le> j \<longrightarrow> slot s i \<noteq> 0"
    unfolding wrapped_inv_def by blast
  have "unat lim < 2 ^ 16"
    unfolding lim_def search_limit_floor_sqrt by (rule floor_sqrt_u32) (rule index_bound)
  with j(3) have lj: "unat lim < unat (primes s (of_nat j))" by (simp add: slot_def)
  have nz': "\<forall>i. 1 \<le> i \<and> i \<le> j \<longrightarrow> primes s (of_nat i) \<noteq> 0"
    using nz by (auto simp: slot_def)
  from scan_run [OF j(1) lj nz', of "candidate s + 2"] obtain b m where
    run: "divisor_scan (primes s) lim (candidate s + 2) (of_nat 1) = Some (Inr (b, of_nat m))"
    and m: "1 \<le> m" "m \<le> j"
    and other: "\<forall>q. (\<forall>i. 1 \<le> i \<and> i \<le> m \<longrightarrow> q (of_nat i) = primes s (of_nat i)) \<longrightarrow>
              divisor_scan q lim (candidate s + 2) (of_nat 1) = Some (Inr (b, of_nat m))"
    by blast
  let ?s' = "store_prime s (candidate s + 2) b"
  have "\<forall>i. 1 \<le> i \<and> i \<le> j \<longrightarrow> slot ?s' i \<noteq> 0"
    using nz j(2) by (simp add: slot_store_le [OF lt])
  moreover have "65535 < slot ?s' j" using j(2,3) by (simp add: slot_store_le [OF lt])
  moreover have "j \<le> unat (index ?s')" using j(2) index_store_ge [OF lt, of "candidate s + 2" b] by simp
  moreover have "slot ?s' 1 = 3" using s1 j(1,2) by (simp add: slot_store_le [OF lt])
  moreover have "odd (unat (candidate ?s'))" using oddc by (simp add: odd_plus2)
  ultimately have "wrapped_inv ?s'" unfolding wrapped_inv_def using j(1) by blast
  with run m j(2) other show ?thesis
    unfolding lim_def by (intro exI [of _ b] exI [of _ m]) simp
qed

lemma loop_inv_scan:
  assumes inv: "loop_inv s" and lt: "index s < C"
  shows "\<exists>b m. divisor_scan (primes s) (search_limit (candidate s + 2)) (candidate s + 2) 1 =
             Some (Inr (b, of_nat m)) \<and> 1 \<le> m \<and> m \<le> unat (index s) \<and>
           (\<forall>q. (\<forall>i. 1 \<le> i \<and> i \<le> m \<longrightarrow> q (of_nat i) = primes s (of_nat i)) \<longrightarrow>
              divisor_scan q (search_limit (candidate s + 2)) (candidate s + 2) 1 =
              Some (Inr (b, of_nat m))) \<and>
           loop_inv (store_prime s (candidate s + 2) b)"
proof (cases "search_inv s \<and> unat (candidate s) + 2 < 2 ^ 32")
  case True
  then have inv: "search_inv s" and nowrap: "unat (candidate s) + 2 < 2 ^ 32" by simp_all
  from search_inv_scan [OF inv nowrap] search_inv_step [OF inv nowrap lt]
  show ?thesis unfolding loop_inv_def by blast
next
  case False
  with inv have "wrapped_inv s" unfolding loop_inv_def using search_inv_wrap by blast
  from wrapped_inv_scan [OF this lt] show ?thesis unfolding loop_inv_def by blast
qed

lemma upt8: "[0..<8] = [0, 1, 2, 3, 4, 5, 6, 7 :: nat]"
  by (simp add: upt_rec)

lemma small_primes:
  "\<not> is_prime 0" "\<not> is_prime 1" "is_prime 2" "is_prime 3" "\<not> is_prime 4" "is_prime 5"
  "\<not> is_prime 6" "is_prime 7"
proof -
  show "\<not> is_prime 0" "\<not> is_prime 1" by (simp_all add: is_prime_def)
  show "is_prime 2" "is_prime 3" "is_prime 5" "is_prime 7"
    by (rule trial_is_prime, simp add: trial.simps, simp)+
  show "\<not> is_prime 4" by (rule not_prime_divisor [of 2]) simp_all
  show "\<not> is_prime 6" by (rule not_prime_divisor [of 2]) simp_all
qed

lemma not_prime_Suc0: "\<not> is_prime (Suc 0)"
  by (simp add: is_prime_def)

lemma primes_upto_7: "primes_upto 7 = [2, 3, 5, 7]"
  unfolding primes_upto_def by (simp add: upt8 small_primes not_prime_Suc0 del: upt_Suc)

lemma upt4: "[0..<4] = [0, 1, 2, 3 :: nat]"
  by (simp add: upt_rec)

lemma seed_fields [simp]:
  "index (seed stack) = 3" "candidate (seed stack) = 7"
  "primes (seed stack) = stack(0 := 2, 1 := 3, 2 := 5, 3 := 7)"
  by (simp_all add: seed_def)

lemma slot_seed: "slot (seed stack) 0 = 2" "slot (seed stack) (Suc 0) = 3"
  "slot (seed stack) 2 = 5" "slot (seed stack) 3 = 7"
  by (simp_all add: slot_def)

lemma filled_seed: "filled (seed stack) = [2, 3, 5, 7]"
  unfolding filled_def by (simp add: upt4 slot_seed del: upt_Suc)

lemma search_inv_seed: "search_inv (seed stack)"
  unfolding search_inv_def holds_first_primes_def
  by (auto simp: filled_seed primes_upto_7 slot_seed)

lemma primer_loop_exit: "\<not> index s < C \<Longrightarrow> primer_loop C s = Some (Inr s)"
  by (subst primer_loop.simps) simp

lemma primer_loop_iter:
  "index s < C \<Longrightarrow> loop_body s = Some (Inr s') \<Longrightarrow> primer_loop C s = primer_loop C s'"
  by (subst primer_loop.simps) simp

lemma primer_loop_lockstep:
  fixes f :: "primer_state \<Rightarrow> nat"
  assumes R: "R s t"
    and step: "\<And>s t. R s t \<Longrightarrow> index s < C \<Longrightarrow>
        \<exists>s' t'. loop_body s = Some (Inr s') \<and> loop_body t = Some (Inr t') \<and> R s' t' \<and> f s' < f s"
    and idx: "\<And>s t. R s t \<Longrightarrow> index t = index s"
  shows "\<exists>s' t'. primer_loop C s = Some (Inr s') \<and> primer_loop C t = Some (Inr t') \<and>
           R s' t' \<and> \<not> index s' < C"
  using R
proof (induction "f s" arbitrary: s t rule: less_induct)
  case less
  show ?case
  proof (cases "index s < C")
    case False
    moreover from False idx [OF less.prems] have "\<not> index t < C" by simp
    ultimately show ?thesis using less.prems by (auto simp: primer_loop_exit)
  next
    case True
    from step [OF less.prems True] obtain s' t' where
      b: "loop_body s = Some (Inr s')" "loop_body t = Some (Inr t')" and r: "R s' t'"
      and f: "f s' < f s" by blast
    from True idx [OF less.prems] have tt: "index t < C" by simp
    from less.hyps [OF f r] obtain s'' t'' where
      "primer_loop C s' = Some (Inr s'')" "primer_loop C t' = Some (Inr t'')"
      "R s'' t''" "\<not> index s'' < C" by blast
    then show ?thesis
      using primer_loop_iter [OF True b(1)] primer_loop_iter [OF tt b(2)] by auto
  qed
qed

lemma primer_loop_rule:
  fixes f :: "primer_state \<Rightarrow> nat"
  assumes I: "I s"
    and step: "\<And>s. I s \<Longrightarrow> index s < C \<Longrightarrow>
        \<exists>s'. loop_body s = Some (Inr s') \<and> I s' \<and> f s' < f s"
  shows "\<exists>s'. primer_loop C s = Some (Inr s') \<and> I s' \<and> \<not> index s' < C"
proof -
  have "\<exists>s' t'. primer_loop C s = Some (Inr s') \<and> primer_loop C s = Some (Inr t') \<and>
           (I s' \<and> t' = s') \<and> \<not> index s' < C"
  proof (rule primer_loop_lockstep [where R = "\<lambda>s t. I s \<and> t = s" and f = f])
    show "I s \<and> s = s" using I by simp
  next
    fix s t assume "I s \<and> t = s" "index s < C"
    with step [of s] show "\<exists>s' t'. loop_body s = Some (Inr s') \<and> loop_body t = Some (Inr t') \<and>
        (I s' \<and> t' = s') \<and> f s' < f s" by auto
  next
    fix s t :: primer_state assume "I s \<and> t = s"
    then show "index t = index s" by simp
  qed
  then show ?thesis by blast
qed

lemma loop_inv_basic:
  assumes "loop_inv s"
  shows "odd (unat (candidate s))" "slot s 1 = 3" "1 \<le> unat (index s)"
  using assms unfolding loop_inv_def search_inv_def wrapped_inv_def by auto

lemma floor_sqrt_3: "floor_sqrt 3 = 1"
  by (rule floor_sqrt_unique) simp_all

lemma scan_candidate_3:
  assumes "slot s 1 = 3"
  shows "divisor_scan (primes s) (search_limit 3) 3 1 = Some (Inr (True, 1))"
proof -
  have "unat (primes s 1) = 3" using assms by (simp add: slot_def)
  moreover have "unat (search_limit 3) = 1" by (simp add: search_limit_floor_sqrt floor_sqrt_3)
  ultimately have "\<not> primes s 1 \<le> search_limit 3" by (simp add: word_le_nat_alt)
  then show ?thesis by (rule scan_stop_true)
qed

lemma measure_store_true:
  assumes lt: "index s < C"
  shows "loop_measure C (store_prime s c True) < loop_measure C s"
proof -
  define d where "d = unat C - unat (index s)"
  have pos: "0 < d" using lt by (simp add: d_def word_less_nat_alt)
  have "unat C - unat (index (store_prime s c True)) = d - 1"
    by (simp add: index_store [OF lt] d_def)
  moreover have "unat (1 - c) < 2 ^ 32" by (rule index_bound)
  moreover have "(d - 1) * 2 ^ 32 + 2 ^ 32 = d * (2 ^ 32 :: nat)"
    using pos by (cases d) simp_all
  ultimately show ?thesis
    unfolding loop_measure_def d_def [symmetric] by simp
qed

lemma measure_store_false:
  assumes oddc: "odd (unat (candidate s))" and ne: "candidate s \<noteq> 1"
  shows "loop_measure C (store_prime s (candidate s + 2) False) < loop_measure C s"
proof -
  define x where "x = 1 - candidate s"
  have "odd (candidate s)" using oddc by (simp add: even_unat)
  then have "even x" by (simp add: x_def)
  then have ev: "even (unat x)" by (simp add: even_unat)
  have "x \<noteq> 0" using ne by (simp add: x_def)
  then have "unat x \<noteq> 0" by (simp add: unat_eq_0)
  with ev have two: "2 \<le> unat x" by (cases "unat x"; cases "unat x - 1") auto
  then have "2 \<le> x" by (simp add: word_le_nat_alt)
  then have "unat (x - 2) = unat x - 2" by (simp add: unat_sub)
  moreover have "1 - (candidate s + 2) = x - 2" by (simp add: x_def)
  ultimately have "unat (1 - (candidate s + 2)) < unat (1 - candidate s)"
    using two by (simp add: x_def)
  then show ?thesis by (simp add: loop_measure_def)
qed

lemma loop_body_step:
  assumes inv: "loop_inv s" and lt: "index s < C"
  shows "\<exists>b m. loop_body s = Some (Inr (store_prime s (candidate s + 2) b)) \<and>
           divisor_scan (primes s) (search_limit (candidate s + 2)) (candidate s + 2) 1 =
             Some (Inr (b, of_nat m)) \<and> 1 \<le> m \<and> m \<le> unat (index s) \<and>
           (\<forall>q. (\<forall>i. 1 \<le> i \<and> i \<le> m \<longrightarrow> q (of_nat i) = primes s (of_nat i)) \<longrightarrow>
              divisor_scan q (search_limit (candidate s + 2)) (candidate s + 2) 1 =
              Some (Inr (b, of_nat m))) \<and>
           loop_inv (store_prime s (candidate s + 2) b) \<and>
           loop_measure C (store_prime s (candidate s + 2) b) < loop_measure C s"
proof -
  from loop_inv_scan [OF inv lt] obtain b m where
    run: "divisor_scan (primes s) (search_limit (candidate s + 2)) (candidate s + 2) 1 =
             Some (Inr (b, of_nat m))"
    and m: "1 \<le> m" "m \<le> unat (index s)"
    and other: "\<forall>q. (\<forall>i. 1 \<le> i \<and> i \<le> m \<longrightarrow> q (of_nat i) = primes s (of_nat i)) \<longrightarrow>
              divisor_scan q (search_limit (candidate s + 2)) (candidate s + 2) 1 =
              Some (Inr (b, of_nat m))"
    and inv': "loop_inv (store_prime s (candidate s + 2) b)" by blast
  have body: "loop_body s = Some (Inr (store_prime s (candidate s + 2) b))"
    by (simp add: loop_body_def run)
  have "loop_measure C (store_prime s (candidate s + 2) b) < loop_measure C s"
  proof (cases b)
    case True
    then show ?thesis by (simp add: measure_store_true [OF lt])
  next
    case False
    have "candidate s \<noteq> 1"
    proof
      assume c1: "candidate s = 1"
      from scan_candidate_3 [OF loop_inv_basic(2) [OF inv]] run False show False
        by (simp add: c1)
    qed
    with False show ?thesis by (simp add: measure_store_false [OF loop_inv_basic(1) [OF inv]])
  qed
  with body run m other inv' show ?thesis by blast
qed

lemma primes_store_old:
  assumes "index s < C" "i \<le> unat (index s)"
  shows "primes (store_prime s c b) (of_nat i) = primes s (of_nat i)"
proof (cases b)
  case True
  have k1: "unat (index s + 1) = unat (index s) + 1" using assms(1) by (rule unat_plus1)
  have "i < 2 ^ 32" using assms(2) index_bound [of "index s"] by simp
  then have "unat (of_nat i :: u32) = i" by (rule unat_of_nat32)
  with k1 assms(2) have "(of_nat i :: u32) \<noteq> index s + 1" by auto
  with True show ?thesis by (simp add: store_prime_def)
next
  case False
  then show ?thesis by (simp add: store_prime_def)
qed

lemma primes_store_new: "primes (store_prime s c True) (index s + 1) = c"
  by (simp add: store_prime_def)

lemma index_store_word: "index (store_prime s c True) = index s + 1"
  by (simp add: store_prime_def)

lemma loop_states_inv: "loop_states C stack s \<Longrightarrow> loop_inv s"
proof (induction rule: loop_states.induct)
  case start
  show ?case unfolding loop_inv_def using search_inv_seed by blast
next
  case (iter s s')
  from loop_body_step [OF iter.IH iter.hyps(2)] iter.hyps(3) show ?case by auto
qed

lemma loop_states_last:
  "loop_states C stack s \<Longrightarrow> primes s (index s) = candidate s \<or> index s < C"
proof (induction rule: loop_states.induct)
  case start
  show ?case by simp
next
  case (iter s s')
  from loop_body_step [OF loop_states_inv [OF iter.hyps(1)] iter.hyps(2)] iter.hyps(3)
  obtain b where s': "s' = store_prime s (candidate s + 2) b" by auto
  show ?case
  proof (cases b)
    case True
    with s' show ?thesis by (simp add: store_prime_def)
  next
    case False
    with s' iter.hyps(2) show ?thesis by (simp add: store_prime_def)
  qed
qed

lemma loop_states_index: "loop_states C stack s \<Longrightarrow> 3 \<le> C \<Longrightarrow> index s \<le> C"
proof (induction rule: loop_states.induct)
  case start
  then show ?case by simp
next
  case (iter s s')
  from loop_body_step [OF loop_states_inv [OF iter.hyps(1)] iter.hyps(2)] iter.hyps(3)
  obtain b where s': "s' = store_prime s (candidate s + 2) b" by auto
  show ?case
  proof (cases b)
    case True
    have "unat (index s') = unat (index s) + 1"
      using s' True by (simp add: index_store [OF iter.hyps(2)])
    moreover have "unat (index s) < unat C" using iter.hyps(2) by (simp add: word_less_nat_alt)
    ultimately show ?thesis by (simp add: word_le_nat_alt)
  next
    case False
    with s' iter.hyps(2) show ?thesis by (simp add: store_prime_def)
  qed
qed

lemma generate_total:
  "\<exists>s. generate C stack = Some (Inr s) \<and> loop_states C stack s \<and> \<not> index s < C"
  unfolding generate_def
proof (rule primer_loop_rule [where f = "loop_measure C"])
  show "loop_states C stack (seed stack)" by (rule loop_states.start)
next
  fix s assume st: "loop_states C stack s" and lt: "index s < C"
  from loop_body_step [OF loop_states_inv [OF st] lt] obtain b where
    b: "loop_body s = Some (Inr (store_prime s (candidate s + 2) b))"
    and m: "loop_measure C (store_prime s (candidate s + 2) b) < loop_measure C s" by blast
  from loop_states.iter [OF st lt b(1)] b m
  show "\<exists>s'. loop_body s = Some (Inr s') \<and> loop_states C stack s' \<and>
          loop_measure C s' < loop_measure C s" by blast
qed

lemma generate_final:
  assumes "3 < C"
  shows "\<exists>s. generate C stack = Some (Inr s) \<and> loop_states C stack s \<and> index s = C \<and>
           primes s C = candidate s"
proof -
  from generate_total [of C stack] obtain s where
    s: "generate C stack = Some (Inr s)" "loop_states C stack s" "\<not> index s < C" by blast
  from assms have "3 \<le> C" by simp
  from loop_states_index [OF s(2) this] s(3) have "index s = C" by simp
  moreover from loop_states_last [OF s(2)] s(3) have "primes s (index s) = candidate s" by simp
  ultimately show ?thesis using s by auto
qed

lemma scan_in_filled:
  assumes st: "loop_states C stack s" and lt: "index s < C"
  shows "\<exists>isprime count.
           divisor_scan (primes s) (search_limit (candidate s + 2)) (candidate s + 2) 1 =
             Some (Inr (isprime, count)) \<and> 1 \<le> count \<and> count \<le> index s"
proof -
  from loop_body_step [OF loop_states_inv [OF st] lt] obtain b m where
    run: "divisor_scan (primes s) (search_limit (candidate s + 2)) (candidate s + 2) 1 =
             Some (Inr (b, of_nat m))"
    and m: "1 \<le> m" "m \<le> unat (index s)" by blast
  have "m < 2 ^ 32" using m(2) index_bound [of "index s"] by simp
  then have um: "unat (of_nat m :: u32) = m" by (rule unat_of_nat32)
  have "(1 :: u32) \<le> of_nat m \<and> (of_nat m :: u32) \<le> index s"
    using m by (simp add: word_le_nat_alt um)
  with run show ?thesis by blast
qed

lemma same_view_filled: "same_view s t \<Longrightarrow> filled t = filled s"
  unfolding filled_def same_view_def
  by (auto simp del: upt_Suc simp: slot_def intro!: map_cong)

lemma same_view_step:
  assumes inv: "loop_inv s" "loop_inv t" and v: "same_view s t" and lt: "index s < C"
  shows "\<exists>s' t'. loop_body s = Some (Inr s') \<and> loop_body t = Some (Inr t') \<and>
           (loop_inv s' \<and> loop_inv t' \<and> same_view s' t') \<and>
           loop_measure C s' < loop_measure C s"
proof -
  from v have it: "index t = index s" and ct: "candidate t = candidate s"
    and ag: "\<forall>i. i \<le> unat (index s) \<longrightarrow> primes t (of_nat i) = primes s (of_nat i)"
    by (simp_all add: same_view_def)
  from loop_body_step [OF inv(1) lt] obtain b m where
    body: "loop_body s = Some (Inr (store_prime s (candidate s + 2) b))"
    and m: "1 \<le> m" "m \<le> unat (index s)"
    and other: "\<forall>q. (\<forall>i. 1 \<le> i \<and> i \<le> m \<longrightarrow> q (of_nat i) = primes s (of_nat i)) \<longrightarrow>
              divisor_scan q (search_limit (candidate s + 2)) (candidate s + 2) 1 =
              Some (Inr (b, of_nat m))"
    and inv': "loop_inv (store_prime s (candidate s + 2) b)"
    and dec: "loop_measure C (store_prime s (candidate s + 2) b) < loop_measure C s" by blast
  have lt': "index t < C" using lt it by simp
  from loop_body_step [OF inv(2) lt'] obtain b' m' where
    body': "loop_body t = Some (Inr (store_prime t (candidate t + 2) b'))"
    and run': "divisor_scan (primes t) (search_limit (candidate t + 2)) (candidate t + 2) 1 =
             Some (Inr (b', of_nat m'))"
    and inv'': "loop_inv (store_prime t (candidate t + 2) b')" by blast
  have "\<forall>i. 1 \<le> i \<and> i \<le> m \<longrightarrow> primes t (of_nat i) = primes s (of_nat i)"
    using ag m(2) by simp
  with other have "divisor_scan (primes t) (search_limit (candidate s + 2)) (candidate s + 2) 1 =
              Some (Inr (b, of_nat m))" by blast
  with run' have bb: "b' = b" by (simp add: ct)
  let ?s' = "store_prime s (candidate s + 2) b"
  let ?t' = "store_prime t (candidate s + 2) b"
  have "same_view ?s' ?t'"
  proof (cases b)
    case False
    with v show ?thesis by (simp add: same_view_def store_prime_def)
  next
    case True
    have "\<forall>i. i \<le> unat (index ?s') \<longrightarrow> primes ?t' (of_nat i) = primes ?s' (of_nat i)"
    proof (intro allI impI)
      fix i assume "i \<le> unat (index ?s')"
      then have i: "i \<le> Suc (unat (index s))" using True by (simp add: index_store [OF lt])
      show "primes ?t' (of_nat i) = primes ?s' (of_nat i)"
      proof (cases "i = Suc (unat (index s))")
        case T: True
        then have "(of_nat i :: u32) = index s + 1" by simp
        then show ?thesis using True it by (simp add: store_prime_def)
      next
        case F: False
        with i have il: "i \<le> unat (index s)" by simp
        then have "i \<le> unat (index t)" by (simp add: it)
        from primes_store_old [OF lt il] primes_store_old [OF lt' this] ag il
        show ?thesis by simp
      qed
    qed
    then show ?thesis using True it by (simp add: same_view_def store_prime_def)
  qed
  with body body' inv' inv'' dec bb ct show ?thesis by auto
qed

lemma generate_same_view:
  "\<exists>s t. generate C stack1 = Some (Inr s) \<and> generate C stack2 = Some (Inr t) \<and> same_view s t"
proof -
  have "\<exists>s' t'. primer_loop C (seed stack1) = Some (Inr s') \<and>
          primer_loop C (seed stack2) = Some (Inr t') \<and>
          (loop_inv s' \<and> loop_inv t' \<and> same_view s' t') \<and> \<not> index s' < C"
  proof (rule primer_loop_lockstep
      [where R = "\<lambda>s t. loop_inv s \<and> loop_inv t \<and> same_view s t" and f = "loop_measure C"])
    have "same_view (seed stack1) (seed stack2)"
    proof -
      have "\<forall>i. i \<le> 3 \<longrightarrow> i = 0 \<or> i = 1 \<or> i = 2 \<or> i = (3::nat)" by auto
      then show ?thesis by (auto simp: same_view_def)
    qed
    then show "loop_inv (seed stack1) \<and> loop_inv (seed stack2) \<and> same_view (seed stack1) (seed stack2)"
      using search_inv_seed by (simp add: loop_inv_def)
  next
    fix s t assume "loop_inv s \<and> loop_inv t \<and> same_view s t" "index s < C"
    then show "\<exists>s' t'. loop_body s = Some (Inr s') \<and> loop_body t = Some (Inr t') \<and>
           (loop_inv s' \<and> loop_inv t' \<and> same_view s' t') \<and>
           loop_measure C s' < loop_measure C s"
      using same_view_step by blast
  next
    fix s t assume "loop_inv s \<and> loop_inv t \<and> same_view s t"
    then show "index t = index s" by (simp add: same_view_def)
  qed
  then show ?thesis unfolding generate_def by blast
qed











lemmas fl_eval = fl_def exponent_def round_even_def bit_length.simps scale_def



lemma primer_returns:
  "\<exists>s. generate C stack = Some (Inr s) \<and>
       primer C firstpass stack start finish =
         Some (Inr ((if firstpass then [LastPrime (candidate s)] else []),
                    elapsed_seconds start finish))"
proof -
  from generate_total [of C stack] obtain s where "generate C stack = Some (Inr s)" by blast
  then show ?thesis by (simp add: primer_def)
qed

lemma button_pressed_first:
  assumes "passcount st = 0"
  shows "\<exists>s. generate C (stack_content tr) = Some (Inr s) \<and>
           button_pressed C tr st =
             Some (Inr ([FreeHeap (heap_free tr), LastPrime (candidate s), Runtime (elapsed tr)],
                        \<lparr>passcount = 1, total_runs = Some (elapsed tr)\<rparr>))"
proof -
  from primer_returns [of C "stack_content tr" True "time_start tr" "time_end tr"]
  obtain s where "generate C (stack_content tr) = Some (Inr s)"
    "primer C True (stack_content tr) (time_start tr) (time_end tr) =
       Some (Inr ([LastPrime (candidate s)], elapsed tr))"
    by (auto simp: elapsed_def)
  then show ?thesis using assms by (simp add: button_pressed_def)
qed

lemma button_pressed_later:
  assumes "1 \<le> passcount st" "passcount st < 2147483647" "total_runs st = Some runs"
  shows "button_pressed C tr st =
           Some (Inr ([RuntimePassAverage (elapsed tr) (passcount st + 1)
                        (fl 24 (fl 24 (runs + elapsed tr) / fl 24 (of_int (passcount st + 1))))],
                      \<lparr>passcount = passcount st + 1,
                       total_runs = Some (fl 24 (runs + elapsed tr))\<rparr>))"
proof -
  from primer_returns [of C "stack_content tr" False "time_start tr" "time_end tr"]
  have "primer C False (stack_content tr) (time_start tr) (time_end tr) =
       Some (Inr ([], elapsed tr))"
    by (auto simp: elapsed_def)
  then show ?thesis using assms by (simp add: button_pressed_def)
qed

lemma button_pressed_ok:
  assumes "stats_ok st"
  shows "button_pressed C tr st = Some (Inl SignedOverflow) \<or>
         (\<exists>out st'. button_pressed C tr st = Some (Inr (out, st')) \<and> stats_ok st' \<and>
            (\<forall>rt p a. RuntimePassAverage rt p a \<in> set out \<longrightarrow> 2 \<le> p))"
proof (cases "passcount st = 2147483647")
  case True
  then show ?thesis by (simp add: button_pressed_def)
next
  case False
  show ?thesis
  proof (cases "passcount st = 0")
    case True
    from button_pressed_first [OF True, of C tr] show ?thesis
      by (auto simp: stats_ok_def)
  next
    case nz: False
    with assms have p: "1 \<le> passcount st" by (simp add: stats_ok_def)
    with assms obtain runs where t: "total_runs st = Some runs" by (auto simp: stats_ok_def)
    have "passcount st < 2147483647 \<or> 2147483647 < passcount st" using False by linarith
    then show ?thesis
    proof
      assume "passcount st < 2147483647"
      from button_pressed_later [OF p this t, of C tr] p show ?thesis
        by (auto simp: stats_ok_def)
    next
      assume big: "2147483647 < passcount st"
      from primer_returns [of C "stack_content tr" False "time_start tr" "time_end tr"]
      have "primer C False (stack_content tr) (time_start tr) (time_end tr) =
         Some (Inr ([], elapsed tr))" by (auto simp: elapsed_def)
      with big t show ?thesis by (auto simp: button_pressed_def stats_ok_def)
    qed
  qed
qed

lemma main_loop_ok:
  "stats_ok st \<Longrightarrow>
   main_loop C evs st = Some (Inl SignedOverflow) \<or>
   (\<exists>out st'. main_loop C evs st = Some (Inr (out, st')) \<and> stats_ok st' \<and>
      (\<forall>rt p a. RuntimePassAverage rt p a \<in> set out \<longrightarrow> 2 \<le> p))"
proof (induction evs arbitrary: st)
  case Nil
  then show ?case by simp
next
  case (Cons ev evs)
  show ?case
  proof (cases ev)
    case Idle
    with Cons show ?thesis by simp
  next
    case (Pressed tr)
    from button_pressed_ok [OF Cons.prems, of C tr] show ?thesis
    proof
      assume "button_pressed C tr st = Some (Inl SignedOverflow)"
      with Pressed show ?thesis by simp
    next
      assume "\<exists>out st'. button_pressed C tr st = Some (Inr (out, st')) \<and> stats_ok st' \<and>
            (\<forall>rt p a. RuntimePassAverage rt p a \<in> set out \<longrightarrow> 2 \<le> p)"
      then obtain out st' where b: "button_pressed C tr st = Some (Inr (out, st'))"
        and ok: "stats_ok st'" and p: "\<forall>rt p a. RuntimePassAverage rt p a \<in> set out \<longrightarrow> 2 \<le> p"
        by blast
      from Cons.IH [OF ok] show ?thesis
      proof
        assume "main_loop C evs st' = Some (Inl SignedOverflow)"
        with Pressed b show ?thesis by simp
      next
        assume "\<exists>out' st''. main_loop C evs st' = Some (Inr (out', st'')) \<and> stats_ok st'' \<and>
          (\<forall>rt p a. RuntimePassAverage rt p a \<in> set out' \<longrightarrow> 2 \<le> p)"
        then obtain out' st'' where m: "main_loop C evs st' = Some (Inr (out', st''))"
          and ok': "stats_ok st''"
          and p': "\<forall>rt p a. RuntimePassAverage rt p a \<in> set out' \<longrightarrow> 2 \<le> p" by blast
        have "main_loop C (ev # evs) st = Some (Inr (out @ out', st''))"
          using Pressed b m by simp
        moreover have "\<forall>rt p a. RuntimePassAverage rt p a \<in> set (out @ out') \<longrightarrow> 2 \<le> p"
          using p p' by (metis Un_iff set_append)
        ultimately show ?thesis using ok' by blast
      qed
    qed
  qed
qed

lemma stats_ok_init: "stats_ok \<lparr>passcount = 0, total_runs = None\<rparr>"
  by (simp add: stats_ok_def)

lemma main_safe:
  "main C evs \<noteq> Some (Inl DivByZero) \<and>
   (\<forall>out st. main C evs = Some (Inr (out, st)) \<longrightarrow>
      (\<forall>rt p a. RuntimePassAverage rt p a \<in> set out \<longrightarrow> 2 \<le> p))"
proof -
  from main_loop_ok [OF stats_ok_init, of C evs]
  have "main C evs = Some (Inl SignedOverflow) \<or>
   (\<exists>out st'. main C evs = Some (Inr (out, st')) \<and> stats_ok st' \<and>
      (\<forall>rt p a. RuntimePassAverage rt p a \<in> set out \<longrightarrow> 2 \<le> p))"
    unfolding main_def .
  then show ?thesis
  proof
    assume "main C evs = Some (Inl SignedOverflow)"
    then show ?thesis by simp
  next
    assume "\<exists>out st'. main C evs = Some (Inr (out, st')) \<and> stats_ok st' \<and>
      (\<forall>rt p a. RuntimePassAverage rt p a \<in> set out \<longrightarrow> 2 \<le> p)"
    then obtain out st' where "main C evs = Some (Inr (out, st'))"
      "\<forall>rt p a. RuntimePassAverage rt p a \<in> set out \<longrightarrow> 2 \<le> p" by blast
    then show ?thesis by simp
  qed
qed



lemma elapsed_1s: "finish - start = 1000000 \<Longrightarrow> elapsed_seconds start finish = 1"
  by (simp add: elapsed_seconds_def fl_eval)

lemma elapsed_3s: "finish - start = 3000000 \<Longrightarrow> elapsed_seconds start finish = 3"
  by (simp add: elapsed_seconds_def fl_eval)




subsection \<open>The rounding error of the average\<close>















section \<open>Evaluation on small inputs\<close>

lemma search_limit_word: "search_limit c = of_nat (floor_sqrt (unat c))"
proof -
  have "unat c < 2 ^ 32" by (rule index_bound)
  then show ?thesis by (simp add: search_limit_def double_trunc_sqrt)
qed

lemma floor_sqrt_9: "floor_sqrt 9 = 3"
  by (rule floor_sqrt_unique) simp_all

lemma floor_sqrt_11: "floor_sqrt 11 = 3"
  by (rule floor_sqrt_unique) simp_all

lemma search_limit_9: "search_limit 9 = 3"
  by (simp add: search_limit_word floor_sqrt_9)

lemma search_limit_11: "search_limit 11 = 3"
  by (simp add: search_limit_word floor_sqrt_11)

lemma scan_9:
  "divisor_scan (stack(0 := 2, 1 := 3, 2 := 5, 3 := 7)) 3 9 1 = Some (Inr (False, 1))"
  by (simp add: divisor_scan.simps)

lemma scan_11:
  "divisor_scan (stack(0 := 2, 1 := 3, 2 := 5, 3 := 7)) 3 11 1 = Some (Inr (True, 2))"
  by (simp add: divisor_scan.simps)

lemma loop_body_seed:
  "loop_body (seed stack) =
     Some (Inr \<lparr>primes = stack(0 := 2, 1 := 3, 2 := 5, 3 := 7), index = 3, candidate = 9\<rparr>)"
  by (simp add: loop_body_def search_limit_9 scan_9 store_prime_def)

lemma loop_body_9:
  "loop_body \<lparr>primes = stack(0 := 2, 1 := 3, 2 := 5, 3 := 7), index = 3, candidate = 9\<rparr> =
     Some (Inr \<lparr>primes = stack(0 := 2, 1 := 3, 2 := 5, 3 := 7, 4 := 11), index = 4,
                 candidate = 11\<rparr>)"
  by (simp add: loop_body_def search_limit_11 scan_11 store_prime_def)

lemma generate_4:
  "generate 4 stack =
     Some (Inr \<lparr>primes = stack(0 := 2, 1 := 3, 2 := 5, 3 := 7, 4 := 11), index = 4,
                 candidate = 11\<rparr>)"
proof -
  have "primer_loop 4 (seed stack) =
      primer_loop 4 \<lparr>primes = stack(0 := 2, 1 := 3, 2 := 5, 3 := 7), index = 3, candidate = 9\<rparr>"
    by (rule primer_loop_iter [OF _ loop_body_seed]) simp
  also have "\<dots> = primer_loop 4 \<lparr>primes = stack(0 := 2, 1 := 3, 2 := 5, 3 := 7, 4 := 11),
      index = 4, candidate = 11\<rparr>"
    by (rule primer_loop_iter [OF _ loop_body_9]) simp
  also have "\<dots> = Some (Inr \<lparr>primes = stack(0 := 2, 1 := 3, 2 := 5, 3 := 7, 4 := 11),
      index = 4, candidate = 11\<rparr>)"
    by (rule primer_loop_exit) simp
  finally show ?thesis by (simp add: generate_def)
qed


lemma generate_small: "primecount \<le> 3 \<Longrightarrow> generate primecount stack = Some (Inr (seed stack))"
  unfolding generate_def by (rule primer_loop_exit) (simp add: leD)

lemma main_two_presses:
  "\<exists>s. generate C (stack_content tr1) = Some (Inr s) \<and>
     main C [Pressed tr1, Pressed tr2] =
       Some (Inr ([FreeHeap (heap_free tr1), LastPrime (candidate s), Runtime (elapsed tr1),
                   RuntimePassAverage (elapsed tr2) 2
                     (fl 24 (fl 24 (elapsed tr1 + elapsed tr2) / fl 24 2))],
                  \<lparr>passcount = 2, total_runs = Some (fl 24 (elapsed tr1 + elapsed tr2))\<rparr>))"
proof -
  have "passcount \<lparr>passcount = 0, total_runs = None\<rparr> = 0" by simp
  from button_pressed_first [OF this, of C tr1]
  obtain s :: primer_state where g: "generate C (stack_content tr1) = Some (Inr s)"
    and b1: "button_pressed C tr1 \<lparr>passcount = 0, total_runs = None\<rparr> =
       Some (Inr ([FreeHeap (heap_free tr1), LastPrime (candidate s), Runtime (elapsed tr1)],
                  \<lparr>passcount = 1, total_runs = Some (elapsed tr1)\<rparr>))" by blast
  have b2: "button_pressed C tr2 \<lparr>passcount = 1, total_runs = Some (elapsed tr1)\<rparr> =
       Some (Inr ([RuntimePassAverage (elapsed tr2) 2
                     (fl 24 (fl 24 (elapsed tr1 + elapsed tr2) / fl 24 2))],
                  \<lparr>passcount = 2, total_runs = Some (fl 24 (elapsed tr1 + elapsed tr2))\<rparr>))"
    using button_pressed_later
      [of "\<lparr>passcount = 1, total_runs = Some (elapsed tr1)\<rparr>" "elapsed tr1" C tr2]
    by simp
  from g b1 b2 show ?thesis by (simp add: main_def)
qed

lemma fl24_small: "fl 24 2 = 2" "fl 24 4 = 4"
  by (simp_all add: fl_eval)

lemma main_4_1s_3s:
  "main 4 [Pressed \<lparr>heap_free = 0, stack_content = \<lambda>_. 0, time_start = 0, time_end = 1000000\<rparr>,
           Pressed \<lparr>heap_free = 0, stack_content = \<lambda>_. 0, time_start = 0, time_end = 3000000\<rparr>] =
     Some (Inr ([FreeHeap 0, LastPrime 11, Runtime 1, RuntimePassAverage 3 2 2],
                \<lparr>passcount = 2, total_runs = Some 4\<rparr>))"
  using main_two_presses
    [of 4 "\<lparr>heap_free = 0, stack_content = \<lambda>_. 0, time_start = 0, time_end = 1000000\<rparr>"
        "\<lparr>heap_free = 0, stack_content = \<lambda>_. 0, time_start = 0, time_end = 3000000\<rparr>"]
  by (simp add: generate_4 elapsed_def elapsed_1s elapsed_3s fl24_small)



lemma floor_sqrt_real: "int (floor_sqrt n) = \<lfloor>sqrt (real n)\<rfloor>"
proof -
  define k where "k = floor_sqrt n"
  have lo: "k * k \<le> n" and hi: "n < (k + 1) * (k + 1)"
    unfolding k_def by (rule floor_sqrt_lower, rule floor_sqrt_upper)
  have "(real k)\<^sup>2 \<le> real n"
    using lo by (metis of_nat_le_iff of_nat_mult power2_eq_square)
  then have a: "real k \<le> sqrt (real n)" by (rule real_le_rsqrt)
  have "real n < (real k + 1)\<^sup>2"
    using hi by (metis of_nat_less_iff of_nat_mult of_nat_add of_nat_1 power2_eq_square)
  then have b: "sqrt (real n) < real k + 1" by (intro real_less_lsqrt) simp_all
  have "\<lfloor>sqrt (real n)\<rfloor> = int k"
    using a b by (intro floor_unique) simp_all
  then show ?thesis by (simp add: k_def)
qed

section \<open>The claims\<close>

subsection \<open>C1: how many values the loop stores\<close>

text \<open>
  C1, as the specification states it: for every capacity \<open>C > 3\<close> the buffer gets exactly
  \<open>C\<close> values, the loop runs while \<^verbatim>\<open>index < capacity - 1\<close> and nothing is stored at an index
  \<open>\<ge> C\<close>. The code's loop runs while \<^verbatim>\<open>index < PRIMECOUNT\<close>: for every \<open>C > 3\<close> and every
  content of the stack the call returns with \<^verbatim>\<open>index = C\<close>, the last prime it found stored
  in slot \<open>C\<close>, one past the end of \<^verbatim>\<open>primes[C]\<close>, and \<open>C + 1\<close> slots filled.
\<close>

theorem primer_stores_past_capacity:
  "3 < primecount \<Longrightarrow>
   \<exists>s. generate primecount stack = Some (Inr s) \<and> index s = primecount \<and>
       primes s primecount = candidate s \<and> length (filled s) = unat primecount + 1"
proof -
  assume "3 < primecount"
  from generate_final [OF this, of stack] obtain s where
    "generate primecount stack = Some (Inr s)" "index s = primecount"
    "primes s primecount = candidate s" by blast
  then show ?thesis by (auto simp: length_filled)
qed

theorem primer_stores_past_capacity_witness:
  "(3 :: u32) < 4 \<and>
   (\<exists>s. generate 4 (\<lambda>_. 0) = Some (Inr s) \<and> index s = 4 \<and> primes s 4 = candidate s \<and>
        length (filled s) = unat (4 :: u32) + 1)"
proof -
  have h: "(3 :: u32) < 4" by simp
  from primer_stores_past_capacity [OF h, of "\<lambda>_. 0"] h show ?thesis by blast
qed

subsection \<open>C2: the buffer holds the first primes\<close>




subsection \<open>C3: the scan stays within the filled slots\<close>

text \<open>
  C3: in every iteration of the loop, of every call, the divisor scan ends, without a
  division by zero, and the last slot it has read (so every slot it has read, from 1 on)
  is at most \<^verbatim>\<open>index\<close>, the highest slot filled so far, which is within the array.
\<close>

theorem scan_reads_filled_slots:
  "loop_states primecount stack s \<Longrightarrow> index s < primecount \<Longrightarrow>
   \<exists>isprime count.
     divisor_scan (primes s) (search_limit (candidate s + 2)) (candidate s + 2) 1 =
       Some (Inr (isprime, count)) \<and>
     1 \<le> count \<and> count \<le> index s \<and> count < primecount"
proof -
  assume st: "loop_states primecount stack s" and lt: "index s < primecount"
  from scan_in_filled [OF st lt] obtain isprime count where
    "divisor_scan (primes s) (search_limit (candidate s + 2)) (candidate s + 2) 1 =
       Some (Inr (isprime, count))" "1 \<le> count" "count \<le> index s" by blast
  with lt show ?thesis by auto
qed

theorem scan_reads_filled_slots_witness:
  "loop_states 4 (\<lambda>_. 0) (seed (\<lambda>_. 0)) \<and> index (seed (\<lambda>_. 0)) < 4 \<and>
   (\<exists>isprime count.
      divisor_scan (primes (seed (\<lambda>_. 0))) (search_limit (candidate (seed (\<lambda>_. 0)) + 2))
        (candidate (seed (\<lambda>_. 0)) + 2) 1 = Some (Inr (isprime, count)) \<and>
      1 \<le> count \<and> count \<le> index (seed (\<lambda>_. 0)) \<and> count < 4)"
proof -
  have a: "loop_states 4 (\<lambda>_. 0) (seed (\<lambda>_. 0))" by (rule loop_states.start)
  have b: "index (seed (\<lambda>_. 0)) < 4" by simp
  from scan_reads_filled_slots [OF a b] a b show ?thesis by blast
qed

subsection \<open>C4: a capacity of four\<close>

text \<open>
  C4, as the specification states it: \<^verbatim>\<open>generate(4)\<close> returns exactly 2, 3, 5, 7 and searches
  no further. The code does otherwise: its loop runs while \<^verbatim>\<open>index < PRIMECOUNT\<close>, and
  with \<^verbatim>\<open>PRIMECOUNT = 4\<close> the seeded index 3 passes the test. The candidates 9 and 11 are
  searched and 11 is stored in slot 4, one past the four slots of the array.
\<close>

theorem generate_4_searches_on:
  "generate 4 stack =
     Some (Inr \<lparr>primes = stack(0 := 2, 1 := 3, 2 := 5, 3 := 7, 4 := 11), index = 4,
                 candidate = 11\<rparr>)"
  by (rule generate_4)

subsection \<open>C5: capacities below four\<close>

text \<open>
  C5, as the specification states it: every capacity \<open>C \<le> 3\<close> fails with a capacity
  error. The code has no such check and no error to report: with \<^verbatim>\<open>PRIMECOUNT = 3\<close> it
  writes the four seeds, skips the loop and returns normally.
\<close>

theorem generate_3_no_error:
  "generate 3 (\<lambda>_. 0) =
     Some (Inr \<lparr>primes = (\<lambda>_. 0)(0 := 2, 1 := 3, 2 := 5, 3 := 7), index = 3, candidate = 7\<rparr>)"
  by (simp add: generate_small seed_def)

text \<open>
  C5, amended: for every capacity \<open>C \<le> 3\<close> the code checks nothing. It writes the four
  seeds (the last of them past the end of the array), performs no search and returns
  normally, with index 3 and candidate 7.
\<close>

theorem generate_small_capacity:
  "primecount \<le> 3 \<Longrightarrow>
   generate primecount stack =
     Some (Inr \<lparr>primes = stack(0 := 2, 1 := 3, 2 := 5, 3 := 7), index = 3, candidate = 7\<rparr>)"
  by (simp add: generate_small seed_def)

theorem generate_small_capacity_witness:
  "(2 :: u32) \<le> 3 \<and>
   generate 2 (\<lambda>_. 0) =
     Some (Inr \<lparr>primes = (\<lambda>_. 0)(0 := 2, 1 := 3, 2 := 5, 3 := 7), index = 3, candidate = 7\<rparr>)"
  using generate_small_capacity [of 2 "\<lambda>_. 0"] by simp

subsection \<open>C6: no state leaks from one call into the next\<close>

text \<open>
  C6: a call of \<^verbatim>\<open>primer\<close> has no variable that outlives it, but its array is not
  initialised and holds what earlier calls left on the stack. For every capacity and
  any two contents of the stack, both calls return, with the same index, the same last
  candidate and the same values in the filled slots.
\<close>

theorem generate_deterministic:
  "\<exists>s t. generate primecount stack1 = Some (Inr s) \<and>
         generate primecount stack2 = Some (Inr t) \<and>
         index t = index s \<and> candidate t = candidate s \<and> filled t = filled s"
proof -
  from generate_same_view [of primecount stack1 stack2] obtain s t where
    "generate primecount stack1 = Some (Inr s)" "generate primecount stack2 = Some (Inr t)"
    "same_view s t" by blast
  then show ?thesis by (auto simp: same_view_filled same_view_def)
qed

subsection \<open>C7: the running average\<close>




subsection \<open>C8: one second, then three\<close>

text \<open>
  C8, as the specification states it: with elapsed times of 1.000 s and 3.000 s the first
  report states pass 1 and average 1.000, the second pass 2 and average 2.000. The first
  pass of the program prints the free heap, the last prime and the runtime, and neither
  a pass count nor an average.
\<close>

theorem first_report_without_pass:
  "main 4 [Pressed \<lparr>heap_free = 0, stack_content = \<lambda>_. 0, time_start = 0, time_end = 1000000\<rparr>,
           Pressed \<lparr>heap_free = 0, stack_content = \<lambda>_. 0, time_start = 0, time_end = 3000000\<rparr>] =
     Some (Inr ([FreeHeap 0, LastPrime 11, Runtime 1, RuntimePassAverage 3 2 2],
                \<lparr>passcount = 2, total_runs = Some 4\<rparr>))"
  by (rule main_4_1s_3s)

text \<open>
  C8, amended: for two consecutive triggers whose timer differences are 1000000 and
  3000000 microseconds, the first prints the free heap, the last prime found and
  ``Runtime = 1.000'' (no pass count, no average), and the second prints runtime 3.000,
  pass 2 and average 2.000.
\<close>

theorem two_triggers_1s_3s:
  "time_end tr1 - time_start tr1 = 1000000 \<Longrightarrow> time_end tr2 - time_start tr2 = 3000000 \<Longrightarrow>
   \<exists>s. generate primecount (stack_content tr1) = Some (Inr s) \<and>
       main primecount [Pressed tr1, Pressed tr2] =
         Some (Inr ([FreeHeap (heap_free tr1), LastPrime (candidate s), Runtime 1,
                     RuntimePassAverage 3 2 2],
                    \<lparr>passcount = 2, total_runs = Some 4\<rparr>))"
proof -
  assume "time_end tr1 - time_start tr1 = 1000000" "time_end tr2 - time_start tr2 = 3000000"
  then have e: "elapsed tr1 = 1" "elapsed tr2 = 3"
    by (simp_all add: elapsed_def elapsed_1s elapsed_3s)
  from main_two_presses [of primecount tr1 tr2] show ?thesis
    by (simp add: e fl24_small)
qed

theorem two_triggers_1s_3s_witness:
  "(1000007 :: u64) - 7 = 1000000 \<and> (3000000 :: u64) - 0 = 3000000 \<and>
   (\<exists>s. generate 60000 (\<lambda>_. 0) = Some (Inr s) \<and>
       main 60000
         [Pressed \<lparr>heap_free = 0, stack_content = \<lambda>_. 0, time_start = 7, time_end = 1000007\<rparr>,
          Pressed \<lparr>heap_free = 0, stack_content = \<lambda>_. 0, time_start = 0, time_end = 3000000\<rparr>] =
         Some (Inr ([FreeHeap 0, LastPrime (candidate s), Runtime 1, RuntimePassAverage 3 2 2],
                    \<lparr>passcount = 2, total_runs = Some 4\<rparr>)))"
  using two_triggers_1s_3s
    [of "\<lparr>heap_free = 0, stack_content = \<lambda>_. 0, time_start = 7, time_end = 1000007\<rparr>"
        "\<lparr>heap_free = 0, stack_content = \<lambda>_. 0, time_start = 0, time_end = 3000000\<rparr>" 60000]
  by simp

subsection \<open>C9: the search limit\<close>

text \<open>
  C9: for every candidate \<open>c\<close>, the search limit \<^verbatim>\<open>trunc(sqrt(candidate))\<close>, computed in
  double precision, is the integer square root of the candidate: the floor of its real
  square root.
\<close>

theorem search_limit_is_floor_sqrt:
  "int (unat (search_limit c)) = \<lfloor>sqrt (real (unat c))\<rfloor>"
  by (simp only: search_limit_floor_sqrt floor_sqrt_real)

subsection \<open>C10: the divisor of the average\<close>

text \<open>
  C10: whatever the sequence of events, \<^verbatim>\<open>main\<close> never divides by zero, and every report
  that shows an average divides by a pass count of at least 2 (the count is incremented
  before the report, and the first pass computes no average).
\<close>

theorem average_divisor_positive:
  "main primecount evs \<noteq> Some (Inl DivByZero) \<and>
   (\<forall>out st. main primecount evs = Some (Inr (out, st)) \<longrightarrow>
      (\<forall>rt p a. RuntimePassAverage rt p a \<in> set out \<longrightarrow> 2 \<le> p))"
  by (rule main_safe)

theorem average_divisor_positive_witness:
  "main 4 [Pressed \<lparr>heap_free = 0, stack_content = \<lambda>_. 0, time_start = 0, time_end = 1000000\<rparr>,
           Pressed \<lparr>heap_free = 0, stack_content = \<lambda>_. 0, time_start = 0, time_end = 3000000\<rparr>] =
     Some (Inr ([FreeHeap 0, LastPrime 11, Runtime 1, RuntimePassAverage 3 2 2],
                \<lparr>passcount = 2, total_runs = Some 4\<rparr>)) \<and>
   RuntimePassAverage 3 2 2 \<in> set [FreeHeap 0, LastPrime 11, Runtime 1, RuntimePassAverage 3 2 2] \<and>
   (2 :: int) \<le> 2"
  using average_divisor_positive
    [of 4 "[Pressed \<lparr>heap_free = 0, stack_content = \<lambda>_. 0, time_start = 0, time_end = 1000000\<rparr>,
           Pressed \<lparr>heap_free = 0, stack_content = \<lambda>_. 0, time_start = 0, time_end = 3000000\<rparr>]"]
    main_4_1s_3s
  by simp

end
